theory Spec2Isabelle
  imports Main
begin

section \<open>JavaScript strings\<close>

text \<open>
  A JavaScript string is a sequence of code units; a \<^typ>\<open>char\<close> stands for a code unit
  below 256. \<open>String.prototype.trim\<close> removes white space and line terminators from both
  ends: in this range TAB, LF, VT, FF, CR, SPACE and NO-BREAK SPACE.
\<close>

definition is_js_space :: "char \<Rightarrow> bool" where
  "is_js_space c = (of_char c \<in> {9, 10, 11, 12, 13, 32, 160 :: nat})"

definition trim :: "string \<Rightarrow> string" where
  "trim s = rev (dropWhile is_js_space (rev (dropWhile is_js_space s)))"

text \<open>\<open>s.split(c)\<close> for a one-character separator: never the empty array.\<close>

fun split :: "char \<Rightarrow> string \<Rightarrow> string list" where
  "split c [] = [[]]"
| "split c (x # xs) =
     (if x = c then [] # split c xs
      else (case split c xs of
              y # ys \<Rightarrow> (x # y) # ys
            | [] \<Rightarrow> [[x]]))"

text \<open>\<open>s.indexOf(c)\<close>: the first position of \<open>c\<close>, or \<open>-1\<close>.\<close>

fun indexOf :: "string \<Rightarrow> char \<Rightarrow> int" where
  "indexOf [] c = - 1"
| "indexOf (x # xs) c =
     (if x = c then 0
      else (let i = indexOf xs c in if i < 0 then - 1 else i + 1))"

text \<open>\<open>s.substring(a, b)\<close> and \<open>s.substring(a)\<close> for \<open>0 \<le> a \<le> b\<close>.\<close>

definition substring :: "string \<Rightarrow> int \<Rightarrow> int \<Rightarrow> string" where
  "substring s a b = take (nat b - nat a) (drop (nat a) s)"

definition substring_from :: "string \<Rightarrow> int \<Rightarrow> string" where
  "substring_from s a = drop (nat a) s"

text \<open>\<open>xs.join(sep)\<close>.\<close>

fun join :: "string \<Rightarrow> string list \<Rightarrow> string" where
  "join sep [] = []"
| "join sep [x] = x"
| "join sep (x # y # ys) = x @ sep @ join sep (y # ys)"

section \<open>Plain objects used as property maps\<close>

text \<open>
  \<open>styles = {}\<close> is an ordinary object. Its own keys are enumerated (by the spread syntax
  and by \<open>Object.entries\<close>) with the array indices first, in ascending numeric order, and
  the other string keys after them in the order of their creation. An object is the list of
  its entries in that order.

  An array index is a canonical numeric string: decimal digits without a leading zero,
  denoting a number below \<open>2^32 - 1\<close>.
\<close>

type_synonym jsobj = "(string \<times> string) list"

definition is_digit :: "char \<Rightarrow> bool" where
  "is_digit c = (48 \<le> (of_char c :: int) \<and> (of_char c :: int) \<le> 57)"

definition digits_value :: "string \<Rightarrow> int" where
  "digits_value s = foldl (\<lambda>n c. 10 * n + (of_char c - 48)) 0 s"

definition is_array_index :: "string \<Rightarrow> bool" where
  "is_array_index k =
     (k \<noteq> [] \<and> list_all is_digit k \<and> (length k = 1 \<or> hd k \<noteq> CHR ''0'')
      \<and> digits_value k < 4294967295)"

definition has_key :: "jsobj \<Rightarrow> string \<Rightarrow> bool" where
  "has_key obj k = (k \<in> set (map fst obj))"

fun replace_value :: "string \<Rightarrow> string \<Rightarrow> jsobj \<Rightarrow> jsobj" where
  "replace_value k v [] = []"
| "replace_value k v ((k', v') # rest) =
     (if k' = k then (k, v) # rest else (k', v') # replace_value k v rest)"

fun insert_index :: "string \<Rightarrow> string \<Rightarrow> jsobj \<Rightarrow> jsobj" where
  "insert_index k v [] = [(k, v)]"
| "insert_index k v ((k', v') # rest) =
     (if is_array_index k' \<and> digits_value k' < digits_value k
      then (k', v') # insert_index k v rest
      else (k, v) # (k', v') # rest)"

text \<open>
  \<open>CreateDataProperty\<close>, the step of the spread syntax: an existing key keeps its place
  and takes the new value, a new array index goes to its numeric place, any other new key
  goes to the end.
\<close>

definition obj_define :: "jsobj \<Rightarrow> string \<Rightarrow> string \<Rightarrow> jsobj" where
  "obj_define obj k v =
     (if has_key obj k then replace_value k v obj
      else if is_array_index k then insert_index k v obj
      else obj @ [(k, v)])"

text \<open>
  The assignment \<open>styles[property] = value\<close>. The key \<open>__proto__\<close> is inherited from
  \<open>Object.prototype\<close> as an accessor, and its setter ignores a value that is neither an
  object nor \<open>null\<close>: the assignment of a string creates no property. Every other
  inherited property is a writable data property, so the assignment creates an own one.
\<close>

definition obj_assign :: "jsobj \<Rightarrow> string \<Rightarrow> string \<Rightarrow> jsobj" where
  "obj_assign obj k v = (if k = ''__proto__'' then obj else obj_define obj k v)"

text \<open>\<open>{ ...a, ...b }\<close>: the own entries of \<open>a\<close>, then those of \<open>b\<close>, are defined on a new object.\<close>

definition copy_into :: "jsobj \<Rightarrow> jsobj \<Rightarrow> jsobj" where
  "copy_into target source = foldl (\<lambda>obj (k, v). obj_define obj k v) target source"

definition spread2 :: "jsobj \<Rightarrow> jsobj \<Rightarrow> jsobj" where
  "spread2 a b = copy_into (copy_into [] a) b"

section \<open>The declaration parsers\<close>

text \<open>
  \<^verbatim>\<open>
  parseStyleDeclarations(declarations) {
      const styles = {};
      const declarationsArray = declarations.split(';');
      declarationsArray.forEach(declaration => {
          const colonIndex = declaration.indexOf(':');
          if (colonIndex > 0) {
              const property = declaration.substring(0, colonIndex).trim();
              const value = declaration.substring(colonIndex + 1).trim();
              if (property && value) { styles[property] = value; }
          }
      });
      return styles;
  }
  \<close>
\<close>

definition declaration_step :: "jsobj \<Rightarrow> string \<Rightarrow> jsobj" where
  "declaration_step styles declaration =
     (let colonIndex = indexOf declaration CHR '':'' in
      if colonIndex > 0 then
        (let property = trim (substring declaration 0 colonIndex);
             value = trim (substring_from declaration (colonIndex + 1))
         in if property \<noteq> [] \<and> value \<noteq> [] then obj_assign styles property value
            else styles)
      else styles)"

definition parseStyleDeclarations :: "string \<Rightarrow> jsobj" where
  "parseStyleDeclarations declarations =
     foldl declaration_step [] (split CHR '';'' declarations)"

text \<open>
  \<open>parseInlineStyle\<close> is a second copy of the loop in the source, behind an early return
  for the empty string.
\<close>

definition inline_step :: "jsobj \<Rightarrow> string \<Rightarrow> jsobj" where
  "inline_step styles declaration =
     (let colonIndex = indexOf declaration CHR '':'' in
      if colonIndex > 0 then
        (let property = trim (substring declaration 0 colonIndex);
             value = trim (substring_from declaration (colonIndex + 1))
         in if property \<noteq> [] \<and> value \<noteq> [] then obj_assign styles property value
            else styles)
      else styles)"

definition parseInlineStyle :: "string \<Rightarrow> jsobj" where
  "parseInlineStyle styleString =
     (if styleString = [] then []
      else foldl inline_step [] (split CHR '';'' styleString))"

section \<open>Elements and the inline style merger\<close>

text \<open>
  A node of the document tree. An element has a tag name, its attributes in insertion
  order and its children; text and CDATA are \<open>Text\<close>; a comment or a processing
  instruction is \<open>Comment\<close> and has no text content. \<open>Detached n\<close> marks a child that
  \<open>removeChild\<close> took out of its parent while the program still holds a reference to it:
  it keeps its position, so that the references of a static \<open>NodeList\<close> stay valid, and no
  traversal of the live tree enters it.
\<close>

datatype node =
  Element string "(string \<times> string) list" "node list"
| Text string
| Comment string
| Detached node

text \<open>\<open>getAttribute\<close> (\<open>None\<close> is \<open>null\<close>), \<open>setAttribute\<close> and \<open>removeAttribute\<close>.\<close>

definition attr_get :: "(string \<times> string) list \<Rightarrow> string \<Rightarrow> string option" where
  "attr_get as name = map_of as name"

fun attr_set :: "(string \<times> string) list \<Rightarrow> string \<Rightarrow> string \<Rightarrow> (string \<times> string) list" where
  "attr_set [] name v = [(name, v)]"
| "attr_set ((n, w) # as) name v =
     (if n = name then (name, v) # as else (n, w) # attr_set as name v)"

definition attr_remove :: "(string \<times> string) list \<Rightarrow> string \<Rightarrow> (string \<times> string) list" where
  "attr_remove as name = filter (\<lambda>(n, w). n \<noteq> name) as"

fun getAttribute :: "node \<Rightarrow> string \<Rightarrow> string option" where
  "getAttribute (Element tag as cs) name = attr_get as name"
| "getAttribute _ name = None"

fun setAttribute :: "node \<Rightarrow> string \<Rightarrow> string \<Rightarrow> node" where
  "setAttribute (Element tag as cs) name v = Element tag (attr_set as name v) cs"
| "setAttribute n name v = n"

fun removeAttribute :: "node \<Rightarrow> string \<Rightarrow> node" where
  "removeAttribute (Element tag as cs) name = Element tag (attr_remove as name) cs"
| "removeAttribute n name = n"

text \<open>
  \<^verbatim>\<open>
  applyStylesToElement(element, newStyles) {
      const existingStyle = element.getAttribute('style') || '';
      const existingStyles = this.parseInlineStyle(existingStyle);
      const mergedStyles = { ...existingStyles, ...newStyles };
      const styleString = Object.entries(mergedStyles)
          .map(([prop, value]) => `${prop}:${value}`)
          .join(';');
      element.setAttribute('style', styleString);
  }
  \<close>
\<close>

definition existing_style :: "node \<Rightarrow> string" where
  "existing_style element =
     (case getAttribute element ''style'' of None \<Rightarrow> [] | Some s \<Rightarrow> s)"

definition render_entry :: "string \<times> string \<Rightarrow> string" where
  "render_entry e = fst e @ '':'' @ snd e"

definition style_string :: "jsobj \<Rightarrow> string" where
  "style_string mergedStyles = join '';'' (map render_entry mergedStyles)"

definition applyStylesToElement :: "node \<Rightarrow> jsobj \<Rightarrow> node" where
  "applyStylesToElement element newStyles =
     (let existingStyle = existing_style element;
          existingStyles = parseInlineStyle existingStyle;
          mergedStyles = spread2 existingStyles newStyles;
          styleString = style_string mergedStyles
      in setAttribute element ''style'' styleString)"

text \<open>
  The merge as the specification words it: the entries of the prior inline style in their
  order, each with the incoming value when the incoming map has the property, then the
  incoming entries of new properties in their order.
\<close>

definition spec_merged_entries :: "jsobj \<Rightarrow> jsobj \<Rightarrow> jsobj" where
  "spec_merged_entries existing incoming =
     map (\<lambda>(k, v). (k, case map_of incoming k of Some w \<Rightarrow> w | None \<Rightarrow> v)) existing
     @ filter (\<lambda>(k, v). \<not> has_key existing k) incoming"

text \<open>
  The declaration parser as the specification words it: a fragment is kept when its first
  colon is at a position greater than zero and the trimmed property and value are both
  non-empty; a later kept fragment replaces the value of an earlier one.
\<close>

definition fragment_entry :: "string \<Rightarrow> string \<times> string" where
  "fragment_entry f =
     (trim (substring f 0 (indexOf f CHR '':'')),
      trim (substring_from f (indexOf f CHR '':'' + 1)))"

definition kept_fragment :: "string \<Rightarrow> bool" where
  "kept_fragment f =
     (indexOf f CHR '':'' > 0 \<and> fst (fragment_entry f) \<noteq> [] \<and> snd (fragment_entry f) \<noteq> [])"

definition spec_declarations :: "string \<Rightarrow> (string \<rightharpoonup> string)" where
  "spec_declarations d =
     map_of (rev (map fragment_entry (filter kept_fragment (split CHR '';'' d))))"

text \<open>
  The fragments whose assignment creates or updates a property: the kept fragments whose
  property is not \<open>__proto__\<close>.
\<close>

definition assigned_fragment :: "string \<Rightarrow> bool" where
  "assigned_fragment f = (kept_fragment f \<and> fst (fragment_entry f) \<noteq> ''__proto__'')"

text \<open>
  What every entry of a parsed declaration map satisfies, and what makes its rendering
  \<open>prop:value\<close> parse back to itself.
\<close>

definition wf_entry :: "string \<times> string \<Rightarrow> bool" where
  "wf_entry e =
     (fst e \<noteq> [] \<and> snd e \<noteq> [] \<and> trim (fst e) = fst e \<and> trim (snd e) = snd e
      \<and> CHR '':'' \<notin> set (fst e) \<and> CHR '';'' \<notin> set (fst e) \<and> CHR '';'' \<notin> set (snd e)
      \<and> fst e \<noteq> ''__proto__'')"

section \<open>The pretty printer\<close>

text \<open>
  \<^verbatim>\<open>
  formatXML(xmlString) {
      return xmlString
          .replace(/></g, '>\n<')
          .replace(/(<\/[a-zA-Z0-9]+>)(<\/[a-zA-Z0-9]+>)/g, '$1\n$2')
          .replace(/(<[a-zA-Z0-9][^>]*>)(<[a-zA-Z0-9][^>]*>)/g, '$1\n  $2')
          .replace(/  (<\/[a-zA-Z0-9]+>)/g, '$1');
  }
  \<close>
  \<open>replace\<close> with a global pattern scans from the left: where the pattern matches, the
  replacement is written and the scan goes on after the match; elsewhere one character is
  copied. A matcher gives the replacement text and the rest of the input after the match.
  None of the four patterns matches the empty string.
\<close>

fun replace_global :: "(string \<Rightarrow> (string \<times> string) option) \<Rightarrow> string \<Rightarrow> string" where
  "replace_global m [] = []"
| "replace_global m (c # cs) =
     (case m (c # cs) of
        Some (out, rest) \<Rightarrow>
          if length rest \<le> length cs then out @ replace_global m rest
          else c # replace_global m cs
      | None \<Rightarrow> c # replace_global m cs)"

definition is_alnum :: "char \<Rightarrow> bool" where
  "is_alnum c =
     ((48 \<le> (of_char c :: int) \<and> (of_char c :: int) \<le> 57)
      \<or> (65 \<le> (of_char c :: int) \<and> (of_char c :: int) \<le> 90)
      \<or> (97 \<le> (of_char c :: int) \<and> (of_char c :: int) \<le> 122))"

text \<open>
  \<open><\/[a-zA-Z0-9]+>\<close> and \<open><[a-zA-Z0-9][^>]*>\<close> at the head of the input. The greedy
  runs stop at the first character outside their class, and a shorter run is followed by a
  character of the class, never by \<open>>\<close>: there is one way to match.
\<close>

definition closing_tag :: "string \<Rightarrow> (string \<times> string) option" where
  "closing_tag s =
     (case s of
        c1 # c2 # r \<Rightarrow>
          if c1 = CHR ''<'' \<and> c2 = CHR ''/'' then
            (let name = takeWhile is_alnum r; r2 = dropWhile is_alnum r
             in if name \<noteq> [] \<and> r2 \<noteq> [] \<and> hd r2 = CHR ''>''
                then Some (CHR ''<'' # CHR ''/'' # name @ ''>'', tl r2)
                else None)
          else None
      | _ \<Rightarrow> None)"

definition opening_tag :: "string \<Rightarrow> (string \<times> string) option" where
  "opening_tag s =
     (case s of
        c1 # c2 # r \<Rightarrow>
          if c1 = CHR ''<'' \<and> is_alnum c2 then
            (let body = takeWhile (\<lambda>c. c \<noteq> CHR ''>'') r;
                 r2 = dropWhile (\<lambda>c. c \<noteq> CHR ''>'') r
             in if r2 \<noteq> [] then Some (CHR ''<'' # c2 # body @ ''>'', tl r2) else None)
          else None
      | _ \<Rightarrow> None)"

definition match_boundary :: "string \<Rightarrow> (string \<times> string) option" where
  "match_boundary s =
     (case s of
        c1 # c2 # r \<Rightarrow>
          if c1 = CHR ''>'' \<and> c2 = CHR ''<'' then Some ([CHR ''>'', CHR 0x0A, CHR ''<''], r)
          else None
      | _ \<Rightarrow> None)"

definition match_closing_pair :: "string \<Rightarrow> (string \<times> string) option" where
  "match_closing_pair s =
     (case closing_tag s of
        Some (t1, r1) \<Rightarrow>
          (case closing_tag r1 of
             Some (t2, r2) \<Rightarrow> Some (t1 @ [CHR 0x0A] @ t2, r2)
           | None \<Rightarrow> None)
      | None \<Rightarrow> None)"

definition match_opening_pair :: "string \<Rightarrow> (string \<times> string) option" where
  "match_opening_pair s =
     (case opening_tag s of
        Some (t1, r1) \<Rightarrow>
          (case opening_tag r1 of
             Some (t2, r2) \<Rightarrow> Some (t1 @ [CHR 0x0A, CHR '' '', CHR '' ''] @ t2, r2)
           | None \<Rightarrow> None)
      | None \<Rightarrow> None)"

definition match_indented_closing :: "string \<Rightarrow> (string \<times> string) option" where
  "match_indented_closing s =
     (case s of
        c1 # c2 # r \<Rightarrow>
          if c1 = CHR '' '' \<and> c2 = CHR '' '' then closing_tag r else None
      | _ \<Rightarrow> None)"

definition formatXML :: "string \<Rightarrow> string" where
  "formatXML xmlString =
     replace_global match_indented_closing
       (replace_global match_opening_pair
          (replace_global match_closing_pair
             (replace_global match_boundary xmlString)))"

text \<open>No \<open>>\<close> is directly followed by \<open><\<close>.\<close>

fun boundary_free :: "string \<Rightarrow> bool" where
  "boundary_free [] = True"
| "boundary_free [c] = True"
| "boundary_free (c # d # r) = (\<not> (c = CHR ''>'' \<and> d = CHR ''<'') \<and> boundary_free (d # r))"

section \<open>The document tree\<close>

text \<open>
  An element is named by its path: the positions of its ancestors and of itself among
  their parents' children. \<open>removeChild\<close> leaves a \<open>Detached\<close> mark in place, so paths stay
  valid while nodes are removed. Navigation by a path looks through the marks (a held
  reference still reaches a removed element); the enumeration of the live tree does not
  enter them.
\<close>

type_synonym path = "nat list"

fun subtree_at :: "node \<Rightarrow> path \<Rightarrow> node option" where
  "subtree_at (Detached n) p = subtree_at n p"
| "subtree_at (Element tag as cs) (i # p) =
     (if i < length cs then subtree_at (cs ! i) p else None)"
| "subtree_at (Text s) (i # p) = None"
| "subtree_at (Comment s) (i # p) = None"
| "subtree_at (Element tag as cs) [] = Some (Element tag as cs)"
| "subtree_at (Text s) [] = Some (Text s)"
| "subtree_at (Comment s) [] = Some (Comment s)"

fun modify_at :: "(node \<Rightarrow> node) \<Rightarrow> node \<Rightarrow> path \<Rightarrow> node" where
  "modify_at f (Detached n) p = Detached (modify_at f n p)"
| "modify_at f (Element tag as cs) (i # p) =
     (if i < length cs then Element tag as (cs[i := modify_at f (cs ! i) p])
      else Element tag as cs)"
| "modify_at f (Text s) (i # p) = Text s"
| "modify_at f (Comment s) (i # p) = Comment s"
| "modify_at f (Element tag as cs) [] = f (Element tag as cs)"
| "modify_at f (Text s) [] = f (Text s)"
| "modify_at f (Comment s) [] = f (Comment s)"

text \<open>The elements of the live tree in document order, the node itself first.\<close>

function element_paths :: "node \<Rightarrow> path list" where
  "element_paths (Element tag as cs) =
     [] # concat (map (\<lambda>i. map ((#) i) (element_paths (cs ! i))) [0..<length cs])"
| "element_paths (Text s) = []"
| "element_paths (Comment s) = []"
| "element_paths (Detached n) = []"
  by pat_completeness auto
termination
proof (relation "measure size")
  fix tag :: string and as :: "(string \<times> string) list" and cs :: "node list" and i :: nat
  assume "i \<in> set [0..<length cs]"
  then have "cs ! i \<in> set cs" by simp
  then have "size (cs ! i) \<le> size_list size cs" by (rule size_list_estimation') simp
  then show "(cs ! i, Element tag as cs) \<in> measure size" by simp
qed simp

definition descendant_paths :: "node \<Rightarrow> path list" where
  "descendant_paths n = filter (\<lambda>p. p \<noteq> []) (element_paths n)"

definition tag_at :: "node \<Rightarrow> path \<Rightarrow> string option" where
  "tag_at root p =
     (case subtree_at root p of Some (Element tag as cs) \<Rightarrow> Some tag | _ \<Rightarrow> None)"

definition attribute_at :: "node \<Rightarrow> path \<Rightarrow> string \<Rightarrow> string option" where
  "attribute_at root p name =
     (case subtree_at root p of Some n \<Rightarrow> getAttribute n name | None \<Rightarrow> None)"

text \<open>
  \<open>textContent\<close> of an element: the text of its live descendants in document order;
  comments and processing instructions have none.
\<close>

fun textContent :: "node \<Rightarrow> string" where
  "textContent (Element tag as cs) = concat (map textContent cs)"
| "textContent (Text s) = s"
| "textContent (Comment s) = []"
| "textContent (Detached n) = []"

text \<open>The live tree: the marks of removed children are dropped.\<close>

fun is_detached :: "node \<Rightarrow> bool" where
  "is_detached (Detached n) = True"
| "is_detached n = False"

fun sweep :: "node \<Rightarrow> node" where
  "sweep (Element tag as cs) = Element tag as (map sweep (filter (\<lambda>c. \<not> is_detached c) cs))"
| "sweep n = n"

text \<open>
  The tag and the attributes of the element at a path, and a change of the attributes of
  an element that leaves its tag and its children alone: both mutations of the two
  matching passes are of this kind.
\<close>

definition element_at :: "node \<Rightarrow> path \<Rightarrow> (string \<times> (string \<times> string) list) option" where
  "element_at root p =
     (case subtree_at root p of Some (Element tag as cs) \<Rightarrow> Some (tag, as) | _ \<Rightarrow> None)"

fun map_attrs :: "((string \<times> string) list \<Rightarrow> (string \<times> string) list) \<Rightarrow> node \<Rightarrow> node" where
  "map_attrs g (Element tag as cs) = Element tag (g as) cs"
| "map_attrs g n = n"

text \<open>The tags of the live elements in document order.\<close>

fun live_tags :: "node \<Rightarrow> string list" where
  "live_tags (Element tag as cs) = tag # concat (map live_tags cs)"
| "live_tags n = []"

section \<open>What the browser provides\<close>

text \<open>
  The document parser, the serializer and the selector engine are the browser's. They are
  parameters of the model.
  \<^item> \<open>parseFromString\<close> gives the document element of the parsed text; for a text that is not
    well-formed that is the error document, which holds a \<open>parsererror\<close> element.
  \<^item> \<open>serializeToString\<close> and \<open>innerHTML\<close> give the markup of a node and of its children.
  \<^item> \<open>parse_selector\<close> reads a selector: \<open>None\<close> when the selector is not valid (the query
    then raises a \<open>SyntaxError\<close>), otherwise the test that decides whether the element at a
    path below the queried node matches. The test sees the context (the parsed document and
    the place of the queried node in it), since a selector may speak about ancestors.
  A query returns the matching elements of the queried scope in document order.
\<close>

type_synonym scope = "node \<times> path"

record dom_env =
  parseFromString :: "string \<Rightarrow> node"
  serializeToString :: "node \<Rightarrow> string"
  innerHTML :: "node \<Rightarrow> string"
  parse_selector :: "string \<Rightarrow> (scope \<Rightarrow> node \<Rightarrow> path \<Rightarrow> bool) option"

datatype failure = InvalidSVGFormat | NoSVGElement | SelectorSyntaxError string

text \<open>
  The four selectors the program itself writes are a type selector or an attribute
  selector, whatever the engine.
\<close>

definition has_tag :: "string \<Rightarrow> scope \<Rightarrow> node \<Rightarrow> path \<Rightarrow> bool" where
  "has_tag name ctx root p = (tag_at root p = Some name)"

definition has_attribute :: "string \<Rightarrow> scope \<Rightarrow> node \<Rightarrow> path \<Rightarrow> bool" where
  "has_attribute name ctx root p = (attribute_at root p name \<noteq> None)"

definition selector_matcher ::
    "dom_env \<Rightarrow> string \<Rightarrow> (scope \<Rightarrow> node \<Rightarrow> path \<Rightarrow> bool) option" where
  "selector_matcher env sel =
     (if sel = ''style'' then Some (has_tag ''style'')
      else if sel = ''svg'' then Some (has_tag ''svg'')
      else if sel = ''parsererror'' then Some (has_tag ''parsererror'')
      else if sel = ''[class]'' then Some (has_attribute ''class'')
      else parse_selector env sel)"

text \<open>\<open>element.querySelectorAll(sel)\<close>: the descendants of the element that match.\<close>

definition querySelectorAll :: "dom_env \<Rightarrow> scope \<Rightarrow> node \<Rightarrow> string \<Rightarrow> failure + path list" where
  "querySelectorAll env ctx root sel =
     (case selector_matcher env sel of
        None \<Rightarrow> Inl (SelectorSyntaxError sel)
      | Some matches \<Rightarrow> Inr (filter (matches ctx root) (descendant_paths root)))"

text \<open>\<open>document.querySelector(sel)\<close>: the first matching element of the document.\<close>

definition doc_querySelector :: "dom_env \<Rightarrow> node \<Rightarrow> string \<Rightarrow> failure + path option" where
  "doc_querySelector env doc sel =
     (case selector_matcher env sel of
        None \<Rightarrow> Inl (SelectorSyntaxError sel)
      | Some matches \<Rightarrow>
          Inr (case filter (matches (doc, []) doc) (element_paths doc) of
                 [] \<Rightarrow> None
               | p # ps \<Rightarrow> Some p))"

section \<open>The rule parser\<close>

text \<open>
  \<^verbatim>\<open>
  parseCSS(cssText) {
      const rules = [];
      const ruleRegex = /([^{}]+)\{([^{}]*)\}/g;
      let match;
      while ((match = ruleRegex.exec(cssText)) !== null) {
          const selector = match[1].trim();
          const declarations = match[2].trim();
          if (selector && declarations) {
              const styles = this.parseStyleDeclarations(declarations);
              rules.push({ selector, styles });
          }
      }
      return rules;
  }
  \<close>
  \<open>rule_match\<close> is the pattern at the head of the input: the two groups and the input after
  the match. \<open>rule_exec\<close> is \<open>exec\<close> from \<open>lastIndex\<close>: the first position where the pattern
  matches.
\<close>

record css_rule =
  selector :: string
  styles :: jsobj

definition not_brace :: "char \<Rightarrow> bool" where
  "not_brace c = (c \<noteq> CHR ''{'' \<and> c \<noteq> CHR ''}'')"

definition rule_match :: "string \<Rightarrow> (string \<times> string \<times> string) option" where
  "rule_match s =
     (let g1 = takeWhile not_brace s; r = dropWhile not_brace s
      in if g1 \<noteq> [] \<and> r \<noteq> [] \<and> hd r = CHR ''{'' then
           (let g2 = takeWhile not_brace (tl r); r2 = dropWhile not_brace (tl r)
            in if r2 \<noteq> [] \<and> hd r2 = CHR ''}'' then Some (g1, g2, tl r2) else None)
         else None)"

fun rule_exec :: "string \<Rightarrow> (string \<times> string \<times> string) option" where
  "rule_exec [] = None"
| "rule_exec (c # cs) =
     (case rule_match (c # cs) of Some m \<Rightarrow> Some m | None \<Rightarrow> rule_exec cs)"

text \<open>A match is not empty, so the loop of \<open>parseCSS\<close> ends.\<close>

lemma rule_match_shorter: "rule_match s = Some (g1, g2, rest) \<Longrightarrow> length rest < length s"
proof -
  assume m: "rule_match s = Some (g1, g2, rest)"
  let ?r = "dropWhile not_brace s"
  let ?r2 = "dropWhile not_brace (tl ?r)"
  from m have r: "?r \<noteq> []" and r2: "?r2 \<noteq> []" and rest: "rest = tl ?r2"
    by (auto simp: rule_match_def Let_def split: if_splits)
  have "length rest < length ?r2" using r2 rest by (cases ?r2) auto
  also have "\<dots> \<le> length (tl ?r)" by (rule length_dropWhile_le)
  also have "\<dots> \<le> length ?r" by simp
  also have "\<dots> \<le> length s" by (rule length_dropWhile_le)
  finally show ?thesis .
qed

lemma rule_exec_shorter: "rule_exec s = Some (g1, g2, rest) \<Longrightarrow> length rest < length s"
proof (induction s)
  case Nil
  then show ?case by simp
next
  case (Cons c cs)
  show ?case
  proof (cases "rule_match (c # cs)")
    case None
    with Cons show ?thesis by simp
  next
    case (Some m)
    with Cons.prems have "rule_match (c # cs) = Some (g1, g2, rest)" by simp
    then show ?thesis by (rule rule_match_shorter)
  qed
qed

function parseCSS :: "string \<Rightarrow> css_rule list" where
  "parseCSS cssText =
     (case rule_exec cssText of
        None \<Rightarrow> []
      | Some (g1, g2, rest) \<Rightarrow>
          (let sel = trim g1; declarations = trim g2
           in (if sel \<noteq> [] \<and> declarations \<noteq> []
               then [\<lparr>selector = sel, styles = parseStyleDeclarations declarations\<rparr>]
               else [])
              @ parseCSS rest))"
  by pat_completeness auto
termination
  by (relation "measure length") (auto dest: rule_exec_shorter)

declare parseCSS.simps [simp del]

section \<open>The conversion\<close>

text \<open>
  \<^verbatim>\<open>
  const styleElements = svg.querySelectorAll('style');
  const cssRules = [];
  styleElements.forEach(styleEl => {
      const cssText = styleEl.textContent || styleEl.innerHTML;
      const rules = this.parseCSS(cssText);
      cssRules.push(...rules);
      styleEl.parentNode.removeChild(styleEl);
  });
  \<close>
  The list of style elements is static: it holds the elements found before the loop.
\<close>

definition css_text :: "dom_env \<Rightarrow> node \<Rightarrow> string" where
  "css_text env styleEl =
     (if textContent styleEl \<noteq> [] then textContent styleEl else innerHTML env (sweep styleEl))"

fun extract_styles :: "dom_env \<Rightarrow> path list \<Rightarrow> node \<times> css_rule list \<Rightarrow> node \<times> css_rule list" where
  "extract_styles env [] state = state"
| "extract_styles env (p # ps) (svg, cssRules) =
     (case subtree_at svg p of
        Some styleEl \<Rightarrow>
          extract_styles env ps
            (modify_at Detached svg p, cssRules @ parseCSS (css_text env styleEl))
      | None \<Rightarrow> extract_styles env ps (svg, cssRules))"

text \<open>
  \<^verbatim>\<open>
  cssRules.forEach(rule => {
      const elements = svg.querySelectorAll(rule.selector);
      elements.forEach(element => {
          this.applyStylesToElement(element, rule.styles);
          processedElements++;
      });
      convertedStyles++;
  });
  \<close>
  An invalid selector makes \<open>querySelectorAll\<close> raise; nothing between here and the handler
  of \<open>convertSVG\<close> catches it.
\<close>

fun apply_to_elements :: "jsobj \<Rightarrow> path list \<Rightarrow> node \<times> nat \<Rightarrow> node \<times> nat" where
  "apply_to_elements newStyles [] state = state"
| "apply_to_elements newStyles (p # ps) (svg, processedElements) =
     apply_to_elements newStyles ps
       (modify_at (\<lambda>element. applyStylesToElement element newStyles) svg p,
        processedElements + 1)"

fun structural_pass ::
    "dom_env \<Rightarrow> scope \<Rightarrow> css_rule list \<Rightarrow> node \<times> nat \<times> nat \<Rightarrow> failure + node \<times> nat \<times> nat" where
  "structural_pass env ctx [] state = Inr state"
| "structural_pass env ctx (rule # rules) (svg, convertedStyles, processedElements) =
     (case querySelectorAll env ctx svg (selector rule) of
        Inl err \<Rightarrow> Inl err
      | Inr elements \<Rightarrow>
          (case apply_to_elements (styles rule) elements (svg, processedElements) of
             (svg', processedElements') \<Rightarrow>
               structural_pass env ctx rules (svg', convertedStyles + 1, processedElements')))"

text \<open>
  \<^verbatim>\<open>
  const elementsWithClass = svg.querySelectorAll('[class]');
  elementsWithClass.forEach(element => {
      const className = element.getAttribute('class');
      if (className) {
          cssRules.forEach(rule => {
              if (rule.selector === `.${className}` ||
                  rule.selector === `*[class~="${className}"]`) {
                  this.applyStylesToElement(element, rule.styles);
                  processedElements++;
              }
          });
          element.removeAttribute('class');
      }
  });
  \<close>
\<close>

definition names_class :: "string \<Rightarrow> css_rule \<Rightarrow> bool" where
  "names_class className rule =
     (selector rule = ''.'' @ className
      \<or> selector rule = ''*[class~='' @ [CHR 0x22] @ className @ [CHR 0x22] @ '']'')"

fun apply_class_rules :: "string \<Rightarrow> path \<Rightarrow> css_rule list \<Rightarrow> node \<times> nat \<Rightarrow> node \<times> nat" where
  "apply_class_rules className p [] state = state"
| "apply_class_rules className p (rule # rules) (svg, processedElements) =
     (if names_class className rule
      then apply_class_rules className p rules
             (modify_at (\<lambda>element. applyStylesToElement element (styles rule)) svg p,
              processedElements + 1)
      else apply_class_rules className p rules (svg, processedElements))"

definition class_step :: "css_rule list \<Rightarrow> path \<Rightarrow> node \<times> nat \<Rightarrow> node \<times> nat" where
  "class_step cssRules p state =
     (case attribute_at (fst state) p ''class'' of
        None \<Rightarrow> state
      | Some className \<Rightarrow>
          if className \<noteq> [] then
            (case apply_class_rules className p cssRules state of
               (svg', processedElements') \<Rightarrow>
                 (modify_at (\<lambda>element. removeAttribute element ''class'') svg' p,
                  processedElements'))
          else state)"

fun class_pass :: "css_rule list \<Rightarrow> path list \<Rightarrow> node \<times> nat \<Rightarrow> node \<times> nat" where
  "class_pass cssRules [] state = state"
| "class_pass cssRules (p # ps) state = class_pass cssRules ps (class_step cssRules p state)"

record conversion_result =
  convertedStyles :: nat
  processedElements :: nat
  cssRules :: "css_rule list"

text \<open>
  \<open>convertEmbeddedCSSToInline(svg, doc)\<close> changes the tree of \<open>svg\<close> and returns the
  counters and the rules. After the first loop no reference to a removed element is left,
  and the tree goes on without the marks.
\<close>

definition convertEmbeddedCSSToInline ::
    "dom_env \<Rightarrow> scope \<Rightarrow> node \<Rightarrow> failure + node \<times> conversion_result" where
  "convertEmbeddedCSSToInline env ctx svg =
     (case querySelectorAll env ctx svg ''style'' of
        Inl err \<Rightarrow> Inl err
      | Inr styleElements \<Rightarrow>
          (case extract_styles env styleElements (svg, []) of
             (svg1, rules) \<Rightarrow>
               (case structural_pass env ctx rules (sweep svg1, 0, 0) of
                  Inl err \<Rightarrow> Inl err
                | Inr (svg2, converted, processed) \<Rightarrow>
                    (case querySelectorAll env ctx svg2 ''[class]'' of
                       Inl err \<Rightarrow> Inl err
                     | Inr elementsWithClass \<Rightarrow>
                         (case class_pass rules elementsWithClass (svg2, processed) of
                            (svg3, processed') \<Rightarrow>
                              Inr (svg3,
                                   \<lparr>convertedStyles = converted,
                                    processedElements = processed',
                                    cssRules = rules\<rparr>))))))"

text \<open>
  \<^verbatim>\<open>
  convertSVG() {
      const svgContent = this.inputEditor.getValue().trim();
      if (!svgContent) { this.updateStatus('ready', 'Ready to convert'); return; }
      try {
          const doc = new DOMParser().parseFromString(svgContent, 'image/svg+xml');
          const parserError = doc.querySelector('parsererror');
          if (parserError) { throw new Error('Invalid SVG format'); }
          const svg = doc.querySelector('svg');
          if (!svg) { throw new Error('No SVG element found'); }
          const result = this.convertEmbeddedCSSToInline(svg, doc);
          const convertedSVG = new XMLSerializer().serializeToString(svg);
          this.outputEditor.setValue(this.formatXML(convertedSVG));
          ...
          this.updateStatus('success', ...);
      } catch (error) {
          this.updateStatus('error', error.message);
          ...
      }
  }
  \<close>
  The outcome is what the call leaves behind: the status \<open>ready\<close> and nothing else; the
  text of the output editor with the statistics; or the error that reached the handler.
\<close>

datatype outcome = Ready | Converted string conversion_result | Failed failure

definition convertSVG :: "dom_env \<Rightarrow> string \<Rightarrow> outcome" where
  "convertSVG env input =
     (let svgContent = trim input in
      if svgContent = [] then Ready
      else
        (let doc = parseFromString env svgContent in
         case doc_querySelector env doc ''parsererror'' of
           Inl err \<Rightarrow> Failed err
         | Inr (Some parserError) \<Rightarrow> Failed InvalidSVGFormat
         | Inr None \<Rightarrow>
             (case doc_querySelector env doc ''svg'' of
                Inl err \<Rightarrow> Failed err
              | Inr None \<Rightarrow> Failed NoSVGElement
              | Inr (Some p) \<Rightarrow>
                  (case subtree_at doc p of
                     None \<Rightarrow> Failed NoSVGElement
                   | Some svg \<Rightarrow>
                       (case convertEmbeddedCSSToInline env (doc, p) svg of
                          Inl err \<Rightarrow> Failed err
                        | Inr (svg', result) \<Rightarrow>
                            Converted (formatXML (serializeToString env svg')) result)))))"

section \<open>What the passes did\<close>

text \<open>
  The tree and the rules after the first loop, the merges of the structural pass (rule and
  element, in the order of the calls of \<open>applyStylesToElement\<close>) and the merges of the
  class pass on a tree: every element below the root with a non-empty class attribute,
  with every rule whose selector is \<open>.\<close> followed by the attribute's value or
  \<open>*[class~="value"]\<close>.
\<close>

definition style_elements :: "node \<Rightarrow> path list" where
  "style_elements svg = filter (\<lambda>p. tag_at svg p = Some ''style'') (descendant_paths svg)"

definition extraction :: "dom_env \<Rightarrow> node \<Rightarrow> node \<times> css_rule list" where
  "extraction env svg = extract_styles env (style_elements svg) (svg, [])"

definition stripped :: "dom_env \<Rightarrow> node \<Rightarrow> node" where
  "stripped env svg = sweep (fst (extraction env svg))"

definition style_texts :: "dom_env \<Rightarrow> node \<Rightarrow> string list" where
  "style_texts env svg =
     concat (map (\<lambda>p. case subtree_at svg p of Some styleEl \<Rightarrow> [css_text env styleEl] | None \<Rightarrow> [])
               (style_elements svg))"

fun structural_merges :: "dom_env \<Rightarrow> scope \<Rightarrow> css_rule list \<Rightarrow> node \<Rightarrow> (css_rule \<times> path) list" where
  "structural_merges env ctx [] svg = []"
| "structural_merges env ctx (rule # rules) svg =
     (case querySelectorAll env ctx svg (selector rule) of
        Inl err \<Rightarrow> []
      | Inr elements \<Rightarrow>
          map (Pair rule) elements
          @ structural_merges env ctx rules
              (fst (apply_to_elements (styles rule) elements (svg, 0))))"

definition class_elements :: "node \<Rightarrow> path list" where
  "class_elements svg =
     filter (\<lambda>p. attribute_at svg p ''class'' \<noteq> None) (descendant_paths svg)"

definition class_merges_at :: "css_rule list \<Rightarrow> node \<Rightarrow> path \<Rightarrow> (css_rule \<times> path) list" where
  "class_merges_at rules svg p =
     (case attribute_at svg p ''class'' of
        None \<Rightarrow> []
      | Some className \<Rightarrow>
          if className \<noteq> [] then map (\<lambda>rule. (rule, p)) (filter (names_class className) rules)
          else [])"

text \<open>
  The two passes as a sequence of operations on the tree. An operation merges the styles of
  a rule into the element at a path or removes the class attribute of the element at a
  path; \<open>perform\<close> carries out a sequence from left to right. The structural pass takes
  the rules in order, and for each rule the elements below the root that its selector
  matches in the tree as it is then, in document order. The class pass takes the elements
  below the root with a class attribute in document order, and for each one whose class
  attribute is not empty the rules that name it, in order, and then the removal of the
  attribute.
\<close>

datatype dom_op = Merge css_rule path | RemoveClass path

fun perform_op :: "node \<Rightarrow> dom_op \<Rightarrow> node" where
  "perform_op svg (Merge rule p) =
     modify_at (\<lambda>element. applyStylesToElement element (styles rule)) svg p"
| "perform_op svg (RemoveClass p) =
     modify_at (\<lambda>element. removeAttribute element ''class'') svg p"

definition perform :: "dom_op list \<Rightarrow> node \<Rightarrow> node" where
  "perform ops svg = foldl perform_op svg ops"

fun is_merge :: "dom_op \<Rightarrow> bool" where
  "is_merge (Merge rule p) = True"
| "is_merge (RemoveClass p) = False"

fun op_path :: "dom_op \<Rightarrow> path" where
  "op_path (Merge rule p) = p"
| "op_path (RemoveClass p) = p"

fun structural_trace :: "dom_env \<Rightarrow> scope \<Rightarrow> css_rule list \<Rightarrow> node \<Rightarrow> dom_op list" where
  "structural_trace env ctx [] svg = []"
| "structural_trace env ctx (rule # rules) svg =
     (case selector_matcher env (selector rule) of
        None \<Rightarrow> []
      | Some matches \<Rightarrow>
          map (Merge rule) (filter (matches ctx svg) (descendant_paths svg))
          @ structural_trace env ctx rules
              (perform (map (Merge rule) (filter (matches ctx svg) (descendant_paths svg))) svg))"

definition class_trace_at :: "css_rule list \<Rightarrow> node \<Rightarrow> path \<Rightarrow> dom_op list" where
  "class_trace_at rules svg p =
     (case attribute_at svg p ''class'' of
        None \<Rightarrow> []
      | Some className \<Rightarrow>
          if className \<noteq> []
          then map (\<lambda>rule. Merge rule p) (filter (names_class className) rules) @ [RemoveClass p]
          else [])"

definition class_trace :: "css_rule list \<Rightarrow> node \<Rightarrow> dom_op list" where
  "class_trace rules svg = concat (map (class_trace_at rules svg) (class_elements svg))"

definition conversion_trace :: "dom_env \<Rightarrow> scope \<Rightarrow> css_rule list \<Rightarrow> node \<Rightarrow> dom_op list" where
  "conversion_trace env ctx rules svg =
     structural_trace env ctx rules svg
     @ class_trace rules (perform (structural_trace env ctx rules svg) svg)"

text \<open>The class attribute an element is left with by the class pass.\<close>

definition class_after :: "string option \<Rightarrow> string option" where
  "class_after before =
     (case before of None \<Rightarrow> None | Some className \<Rightarrow> if className \<noteq> [] then None else Some className)"

text \<open>
  The first element of a document with a given tag, and the first extracted rule whose
  selector the engine refuses.
\<close>

definition first_element :: "node \<Rightarrow> string \<Rightarrow> path option" where
  "first_element doc name =
     (case filter (\<lambda>p. tag_at doc p = Some name) (element_paths doc) of
        [] \<Rightarrow> None
      | p # ps \<Rightarrow> Some p)"

definition refused_rule :: "dom_env \<Rightarrow> css_rule list \<Rightarrow> css_rule option" where
  "refused_rule env rules = find (\<lambda>rule. selector_matcher env (selector rule) = None) rules"

text \<open>
  A well-formed block \<open>selector{declarations}\<close>: no brace inside the selector or the
  declarations, and both with something left after trimming. \<open>block_text\<close> is its text and
  \<open>block_rule\<close> the rule it stands for.
\<close>

definition wf_block :: "string \<times> string \<Rightarrow> bool" where
  "wf_block b =
     (list_all not_brace (fst b) \<and> list_all not_brace (snd b)
      \<and> trim (fst b) \<noteq> [] \<and> trim (snd b) \<noteq> [])"

definition block_text :: "string \<times> string \<Rightarrow> string" where
  "block_text b = fst b @ ''{'' @ snd b @ ''}''"

definition block_rule :: "string \<times> string \<Rightarrow> css_rule" where
  "block_rule b = \<lparr>selector = trim (fst b), styles = parseStyleDeclarations (trim (snd b))\<rparr>"

text \<open>
  The blocks of a style text, read from the text itself. The text is cut at its braces:
  \<open>pieces\<close> gives the run of characters before the first brace, and then every brace with
  the run that follows it. A block is a non-empty run directly followed by \<open>{\<close>, a run and
  \<open>}\<close>; the search goes on after the closing brace, and otherwise with the run after the
  first brace. \<open>text_rules\<close> are the rules of the blocks whose selector and declarations
  are not blank.
\<close>

fun pieces :: "string \<Rightarrow> string \<times> (char \<times> string) list" where
  "pieces [] = ([], [])"
| "pieces (c # cs) =
     (case pieces cs of
        (run, ps) \<Rightarrow> if not_brace c then (c # run, ps) else ([], (c, run) # ps))"

fun blocks_of :: "string \<Rightarrow> (char \<times> string) list \<Rightarrow> (string \<times> string) list" where
  "blocks_of run ((b1, r1) # (b2, r2) # rest) =
     (if run \<noteq> [] \<and> b1 = CHR ''{'' \<and> b2 = CHR ''}''
      then (run, r1) # blocks_of r2 rest
      else blocks_of r1 ((b2, r2) # rest))"
| "blocks_of run [p] = []"
| "blocks_of run [] = []"

definition css_blocks :: "string \<Rightarrow> (string \<times> string) list" where
  "css_blocks cssText = (case pieces cssText of (run, ps) \<Rightarrow> blocks_of run ps)"

definition kept_block :: "string \<times> string \<Rightarrow> bool" where
  "kept_block b = (trim (fst b) \<noteq> [] \<and> trim (snd b) \<noteq> [])"

definition text_rules :: "string \<Rightarrow> css_rule list" where
  "text_rules cssText = map block_rule (filter kept_block (css_blocks cssText))"

text \<open>The text that a sequence of pieces spells, and what every piece of a text satisfies.\<close>

definition unpieces :: "string \<Rightarrow> (char \<times> string) list \<Rightarrow> string" where
  "unpieces run ps = run @ concat (map (\<lambda>(b, r). b # r) ps)"

definition wf_piece :: "char \<times> string \<Rightarrow> bool" where
  "wf_piece p = (\<not> not_brace (fst p) \<and> list_all not_brace (snd p))"

text \<open>
  The elements of a tree in document order, read from the tree: the node itself first, then
  the elements of its children. The style elements are those below the root with the tag
  \<open>style\<close>, one nested in another included.
\<close>

fun elements_of :: "node \<Rightarrow> node list" where
  "elements_of (Element tag as cs) = Element tag as cs # concat (map elements_of cs)"
| "elements_of (Text s) = []"
| "elements_of (Comment s) = []"
| "elements_of (Detached n) = []"

fun descendants :: "node \<Rightarrow> node list" where
  "descendants (Element tag as cs) = concat (map elements_of cs)"
| "descendants n = []"

fun is_style :: "node \<Rightarrow> bool" where
  "is_style (Element tag as cs) = (tag = ''style'')"
| "is_style n = False"

definition style_nodes :: "node \<Rightarrow> node list" where
  "style_nodes svg = filter is_style (descendants svg)"

text \<open>The text of a style element as the first loop reads it: \<open>textContent || innerHTML\<close>.\<close>

definition style_text :: "dom_env \<Rightarrow> node \<Rightarrow> string" where
  "style_text env styleEl =
     (if textContent styleEl \<noteq> [] then textContent styleEl else innerHTML env styleEl)"

text \<open>A tree as the parser gives it: no removed child in it.\<close>

fun clean :: "node \<Rightarrow> bool" where
  "clean (Element tag as cs) = list_all clean cs"
| "clean (Text s) = True"
| "clean (Comment s) = True"
| "clean (Detached n) = False"

text \<open>The tree without its style elements: every child with the tag \<open>style\<close> is left out.\<close>

fun without_styles :: "node \<Rightarrow> node" where
  "without_styles (Element tag as cs) =
     Element tag as (map without_styles (filter (\<lambda>c. \<not> is_style c) cs))"
| "without_styles n = n"

text \<open>
  The rule list as the specification words it, one entry per block found in the style
  elements: the blocks of the text that stands directly in each style element.
\<close>

fun own_text :: "node \<Rightarrow> string" where
  "own_text (Element tag as cs) = concat (map (\<lambda>c. case c of Text s \<Rightarrow> s | _ \<Rightarrow> []) cs)"
| "own_text n = []"

definition document_rules :: "node \<Rightarrow> css_rule list" where
  "document_rules svg = concat (map (\<lambda>styleEl. text_rules (own_text styleEl)) (style_nodes svg))"

text \<open>\<open>below q p\<close>: the path \<open>q\<close> leads strictly below the element at \<open>p\<close>.\<close>

fun below :: "path \<Rightarrow> path \<Rightarrow> bool" where
  "below q [] = (q \<noteq> [])"
| "below [] (j # p) = False"
| "below (i # q) (j # p) = (i = j \<and> below q p)"

section \<open>A small browser for examples\<close>

text \<open>
  To run the model on concrete inputs the parameters need values. \<open>table_env docs\<close> is a
  stand-in for the browser: its parser knows the texts listed in \<open>docs\<close> with their trees
  and gives the error document for every other text; its serializer writes tags,
  attributes and text without escaping; its selector engine reads a type selector
  \<open>name\<close>, a class selector \<open>.name\<close> (a match against the white-space separated tokens of
  the class attribute) and \<open>*\<close>, and refuses every other string.
\<close>

definition is_name_char :: "char \<Rightarrow> bool" where
  "is_name_char c = (is_alnum c \<or> c = CHR ''-'' \<or> c = CHR ''_'')"

definition is_identifier :: "string \<Rightarrow> bool" where
  "is_identifier s = (s \<noteq> [] \<and> list_all is_name_char s \<and> \<not> is_digit (hd s))"

fun tokens :: "string \<Rightarrow> string list" where
  "tokens [] = [[]]"
| "tokens (c # cs) =
     (if is_js_space c then [] # tokens cs
      else (case tokens cs of t # ts \<Rightarrow> (c # t) # ts | [] \<Rightarrow> [[c]]))"

definition has_class_token :: "string \<Rightarrow> scope \<Rightarrow> node \<Rightarrow> path \<Rightarrow> bool" where
  "has_class_token name ctx root p =
     (case attribute_at root p ''class'' of
        None \<Rightarrow> False
      | Some v \<Rightarrow> name \<in> set (tokens v))"

definition basic_selector :: "string \<Rightarrow> (scope \<Rightarrow> node \<Rightarrow> path \<Rightarrow> bool) option" where
  "basic_selector sel =
     (if sel = ''*'' then Some (\<lambda>ctx root p. True)
      else if is_identifier sel then Some (has_tag sel)
      else if sel \<noteq> [] \<and> hd sel = CHR ''.'' \<and> is_identifier (tl sel)
        then Some (has_class_token (tl sel))
      else None)"

fun markup :: "node \<Rightarrow> string" where
  "markup (Element tag as cs) =
     ''<'' @ tag
     @ concat (map (\<lambda>(n, v). '' '' @ n @ ''='' @ [CHR 0x22] @ v @ [CHR 0x22]) as)
     @ (if cs = [] then ''/>''
        else ''>'' @ concat (map markup cs) @ ''</'' @ tag @ ''>'')"
| "markup (Text s) = s"
| "markup (Comment s) = ''<!--'' @ s @ ''-->''"
| "markup (Detached n) = []"

definition error_document :: node where
  "error_document = Element ''parsererror'' [] [Text ''error'']"

definition table_env :: "(string \<times> node) list \<Rightarrow> dom_env" where
  "table_env docs =
     \<lparr>parseFromString = (\<lambda>s. case map_of docs s of Some doc \<Rightarrow> doc | None \<Rightarrow> error_document),
      serializeToString = markup,
      innerHTML = (\<lambda>n. case n of Element tag as cs \<Rightarrow> concat (map markup cs) | _ \<Rightarrow> []),
      parse_selector = basic_selector\<rparr>"

section \<open>Example documents\<close>

text \<open>
  The first end-to-end example of the specification with one more element, its result, a
  document with class attributes on the root and with an empty value, a style block whose
  selector no engine accepts, and a well-formed document that holds a \<open>parsererror\<close>
  element.
\<close>

definition example_svg :: node where
  "example_svg =
     Element ''svg'' []
       [Element ''style'' [] [Text ''.c{fill:red;}''],
        Element ''rect'' [(''class'', ''c'')] [],
        Element ''g'' [(''class'', ''x y'')] []]"

definition example_out :: node where
  "example_out =
     Element ''svg'' []
       [Element ''rect'' [(''style'', ''fill:red'')] [],
        Element ''g'' [] []]"

definition example_result :: conversion_result where
  "example_result =
     \<lparr>convertedStyles = 1, processedElements = 2,
      cssRules = [\<lparr>selector = ''.c'', styles = [(''fill'', ''red'')]\<rparr>]\<rparr>"



definition counted_svg :: node where
  "counted_svg =
     Element ''svg'' []
       [Element ''style'' [] [Text ''rect{fill:red} .c{stroke:blue} .none{x:1}''],
        Element ''rect'' [(''class'', ''c'')] [],
        Element ''circle'' [] [],
        Element ''rect'' [] []]"

definition counted_out :: node where
  "counted_out =
     Element ''svg'' []
       [Element ''rect'' [(''style'', ''fill:red;stroke:blue'')] [],
        Element ''circle'' [] [],
        Element ''rect'' [(''style'', ''fill:red'')] []]"

definition counted_rules :: "css_rule list" where
  "counted_rules =
     [\<lparr>selector = ''rect'', styles = [(''fill'', ''red'')]\<rparr>,
      \<lparr>selector = ''.c'', styles = [(''stroke'', ''blue'')]\<rparr>,
      \<lparr>selector = ''.none'', styles = [(''x'', ''1'')]\<rparr>]"

definition counted_result :: conversion_result where
  "counted_result = \<lparr>convertedStyles = 3, processedElements = 4, cssRules = counted_rules\<rparr>"

definition nested_style_svg :: node where
  "nested_style_svg =
     Element ''svg'' []
       [Element ''style'' []
          [Text ''.a{x:1}'', Element ''style'' [] [Text ''.b{y:2}'']],
        Element ''rect'' [] []]"

definition two_styles_svg :: node where
  "two_styles_svg =
     Element ''svg'' []
       [Element ''style'' [] [Text ''.a{x:1}\<newline>.b { y : 2 }\<newline>''],
        Element ''rect'' [(''class'', ''a'')] [],
        Element ''g'' []
          [Element ''style'' [] [Text ''rect{z:3} @media{ .c{w:5} }''],
           Element ''circle'' [(''class'', ''b'')] []]]"

definition two_styles_out :: node where
  "two_styles_out =
     Element ''svg'' []
       [Element ''rect'' [(''style'', ''x:1;z:3'')] [],
        Element ''g'' [] [Element ''circle'' [(''style'', ''y:2'')] []]]"

definition two_styles_rules :: "css_rule list" where
  "two_styles_rules =
     [\<lparr>selector = ''.a'', styles = [(''x'', ''1'')]\<rparr>,
      \<lparr>selector = ''.b'', styles = [(''y'', ''2'')]\<rparr>,
      \<lparr>selector = ''rect'', styles = [(''z'', ''3'')]\<rparr>,
      \<lparr>selector = ''.c'', styles = [(''w'', ''5'')]\<rparr>]"

definition two_styles_result :: conversion_result where
  "two_styles_result = \<lparr>convertedStyles = 4, processedElements = 5, cssRules = two_styles_rules\<rparr>"


definition bad_selector_svg :: node where
  "bad_selector_svg = Element ''svg'' [] [Element ''style'' [] [Text ''1{fill:red}'']]"

definition nested_error_svg :: node where
  "nested_error_svg = Element ''svg'' [] [Element ''parsererror'' [] []]"

section \<open>The second parser is the first\<close>

lemma inline_step_eq: "inline_step = declaration_step"
  by (intro ext) (simp add: inline_step_def declaration_step_def)

lemma parseInlineStyle_eq: "parseInlineStyle s = parseStyleDeclarations s"
  by (cases s)
     (simp_all add: parseInlineStyle_def parseStyleDeclarations_def inline_step_eq
        declaration_step_def)

section \<open>Facts about objects\<close>

lemma map_of_insert_index: "map_of (insert_index k v obj) = (map_of obj)(k \<mapsto> v)"
  by (induction obj) (auto simp: fun_upd_twist)

lemma keys_replace_value: "map fst (replace_value k v obj) = map fst obj"
  by (induction obj) auto

lemma map_of_replace_value:
  "map_of (replace_value k v obj) k' =
     (if k' = k \<and> has_key obj k then Some v else map_of obj k')"
proof (induction obj)
  case Nil
  then show ?case by (simp add: has_key_def)
next
  case (Cons e obj)
  then show ?case by (cases e) (force simp: has_key_def)
qed

lemma set_insert_index: "set (insert_index k v obj) = insert (k, v) (set obj)"
proof (induction obj)
  case Nil
  then show ?case by simp
next
  case (Cons e obj)
  then show ?case by (cases e) auto
qed

lemma map_of_append_new:
  assumes "\<not> has_key obj k"
  shows "map_of (obj @ [(k, v)]) = (map_of obj)(k \<mapsto> v)"
proof
  fix k'
  from assms have "map_of obj k = None"
    by (simp add: has_key_def map_of_eq_None_iff)
  then show "map_of (obj @ [(k, v)]) k' = ((map_of obj)(k \<mapsto> v)) k'"
    by (simp add: map_add_def split: option.splits)
qed

lemma map_of_obj_define: "map_of (obj_define obj k v) = (map_of obj)(k \<mapsto> v)"
proof (cases "has_key obj k")
  case True
  have "map_of (replace_value k v obj) = (map_of obj)(k \<mapsto> v)"
    by (rule ext) (simp add: map_of_replace_value True)
  then show ?thesis by (simp add: obj_define_def True)
next
  case False
  then show ?thesis
    by (simp add: obj_define_def map_of_insert_index map_of_append_new del: map_of_append)
qed

lemma distinct_insert_index:
  "\<not> has_key obj k \<Longrightarrow> distinct (map fst obj) \<Longrightarrow> distinct (map fst (insert_index k v obj))"
proof (induction obj)
  case Nil
  then show ?case by simp
next
  case (Cons e obj)
  obtain k' v' where e: "e = (k', v')" by (cases e)
  from Cons have "distinct (map fst (insert_index k v obj))" by (simp add: has_key_def)
  moreover have "k' \<notin> fst ` set (insert_index k v obj)"
    using Cons.prems unfolding set_insert_index e has_key_def by auto
  ultimately show ?case using Cons.prems by (simp add: e has_key_def)
qed

lemma distinct_obj_define:
  "distinct (map fst obj) \<Longrightarrow> distinct (map fst (obj_define obj k v))"
  unfolding obj_define_def
  by (auto simp: keys_replace_value distinct_insert_index has_key_def)

lemma keys_obj_define:
  "fst ` set (obj_define obj k v) = insert k (fst ` set obj)"
proof -
  have "fst ` set (replace_value k v obj) = fst ` set obj"
    using keys_replace_value [of k v obj] by (metis set_map)
  then show ?thesis
    unfolding obj_define_def by (auto simp: set_insert_index has_key_def)
qed

section \<open>Facts about the declaration parser\<close>

lemma declaration_step_cases:
  "declaration_step obj f =
     (if kept_fragment f \<and> fst (fragment_entry f) \<noteq> ''__proto__''
      then obj_define obj (fst (fragment_entry f)) (snd (fragment_entry f))
      else obj)"
  by (simp add: declaration_step_def kept_fragment_def fragment_entry_def obj_assign_def Let_def)

lemma map_of_declarations_fold:
  "map_of (foldl declaration_step acc fs) =
     map_of (rev (map fragment_entry (filter assigned_fragment fs)) @ acc)"
proof (induction fs arbitrary: acc)
  case Nil
  then show ?case by simp
next
  case (Cons f fs)
  show ?case
  proof (cases "assigned_fragment f")
    case True
    then have "declaration_step acc f = obj_define acc (fst (fragment_entry f)) (snd (fragment_entry f))"
      by (simp add: declaration_step_cases assigned_fragment_def)
    then show ?thesis
      using True by (simp add: Cons.IH map_of_obj_define)
  next
    case False
    then have "declaration_step acc f = acc"
      by (auto simp: declaration_step_cases assigned_fragment_def)
    then show ?thesis using False by (simp add: Cons.IH)
  qed
qed

lemma distinct_declarations_fold:
  "distinct (map fst acc) \<Longrightarrow> distinct (map fst (foldl declaration_step acc fs))"
  by (induction fs arbitrary: acc) (simp_all add: declaration_step_cases distinct_obj_define)


section \<open>Facts about strings\<close>

lemma set_trim: "set (trim s) \<subseteq> set s"
proof -
  have "set (trim s) = set (dropWhile is_js_space (rev (dropWhile is_js_space s)))"
    by (simp add: trim_def)
  also have "\<dots> \<subseteq> set (rev (dropWhile is_js_space s))" by (rule set_dropWhileD [THEN subsetI]) 
  also have "\<dots> \<subseteq> set s" using set_dropWhileD by fastforce
  finally show ?thesis .
qed

lemma dropWhile_id: "xs = [] \<or> \<not> P (hd xs) \<Longrightarrow> dropWhile P xs = xs"
  by (cases xs) auto

lemma trim_fixed:
  assumes "s = [] \<or> (\<not> is_js_space (hd s) \<and> \<not> is_js_space (last s))"
  shows "trim s = s"
proof (cases s)
  case Nil
  then show ?thesis by (simp add: trim_def)
next
  case (Cons a as)
  with assms have h: "\<not> is_js_space (hd s)" and l: "\<not> is_js_space (last s)" by auto
  have 1: "dropWhile is_js_space s = s" using h by (simp add: dropWhile_id)
  have "hd (rev s) = last s" using Cons by (simp add: hd_rev)
  then have 2: "dropWhile is_js_space (rev s) = rev s" using l by (simp add: dropWhile_id)
  show ?thesis by (simp add: trim_def 1 2)
qed

lemma last_dropWhile: "dropWhile P xs \<noteq> [] \<Longrightarrow> last (dropWhile P xs) = last xs"
  by (induction xs) (auto split: if_splits)

lemma hd_dropWhile_not: "dropWhile P xs \<noteq> [] \<Longrightarrow> \<not> P (hd (dropWhile P xs))"
  by (rule hd_dropWhile)

lemma trim_ends:
  "trim s = [] \<or> (\<not> is_js_space (hd (trim s)) \<and> \<not> is_js_space (last (trim s)))"
proof (cases "trim s = []")
  case True
  then show ?thesis by simp
next
  case False
  define u where "u = dropWhile is_js_space s"
  define w where "w = dropWhile is_js_space (rev u)"
  have t: "trim s = rev w" by (simp add: trim_def u_def w_def)
  with False have w: "w \<noteq> []" by simp
  then have u: "u \<noteq> []" by (auto simp: w_def)
  have "\<not> is_js_space (hd w)" using w unfolding w_def by (rule hd_dropWhile)
  moreover have "last w = last (rev u)" using w unfolding w_def by (rule last_dropWhile)
  moreover have "last (rev u) = hd u" using u by (simp add: last_rev)
  moreover have "\<not> is_js_space (hd u)" using u unfolding u_def by (rule hd_dropWhile)
  ultimately show ?thesis using w by (simp add: t hd_rev last_rev)
qed

lemma trim_trim: "trim (trim s) = trim s"
  by (rule trim_fixed) (rule trim_ends)

lemma split_no_sep: "f \<in> set (split c s) \<Longrightarrow> c \<notin> set f"
  by (induction s arbitrary: f) (auto split: if_splits list.splits)

lemma split_not_Nil: "split c s \<noteq> []"
  by (induction s) (auto split: list.splits)

lemma split_no_occurrence: "c \<notin> set s \<Longrightarrow> split c s = [s]"
  by (induction s) auto

lemma split_append_sep:
  "c \<notin> set x \<Longrightarrow> split c (x @ c # rest) = x # split c rest"
  by (induction x) (auto split: list.splits simp: split_not_Nil)

lemma split_join:
  "xs \<noteq> [] \<Longrightarrow> (\<And>x. x \<in> set xs \<Longrightarrow> c \<notin> set x) \<Longrightarrow> split c (join [c] xs) = xs"
proof (induction "[c]" xs rule: join.induct)
  case 1
  then show ?case by simp
next
  case (2 x)
  then show ?case by (simp add: split_no_occurrence)
next
  case (3 x y ys)
  then show ?case by (simp add: split_append_sep)
qed

lemma indexOf_nonneg_iff: "0 \<le> indexOf s c \<longleftrightarrow> c \<in> set s"
  by (induction s) (auto simp: Let_def)

lemma indexOf_append: "c \<notin> set k \<Longrightarrow> indexOf (k @ c # v) c = int (length k)"
  by (induction k) (auto simp: Let_def)

lemma indexOf_take: "0 \<le> indexOf s c \<Longrightarrow> c \<notin> set (take (nat (indexOf s c)) s)"
proof (induction s)
  case Nil
  then show ?case by simp
next
  case (Cons x s)
  show ?case
  proof (cases "x = c")
    case True
    then show ?thesis by simp
  next
    case False
    with Cons.prems have nn: "0 \<le> indexOf s c" by (simp add: Let_def split: if_splits)
    then have "indexOf (x # s) c = indexOf s c + 1" using False by (simp add: Let_def)
    moreover have "nat (indexOf s c + 1) = Suc (nat (indexOf s c))" using nn by simp
    ultimately show ?thesis using False Cons.IH [OF nn] by simp
  qed
qed

section \<open>Parsed entries and their rendering\<close>

lemma wf_fragment_entry:
  assumes f: "CHR '';'' \<notin> set f" and a: "assigned_fragment f"
  shows "wf_entry (fragment_entry f)"
proof -
  let ?i = "indexOf f CHR '':''"
  from a have pos: "0 < ?i" by (simp add: assigned_fragment_def kept_fragment_def)
  then have "CHR '':'' \<notin> set (take (nat ?i) f)" by (simp add: indexOf_take)
  then have 1: "CHR '':'' \<notin> set (fst (fragment_entry f))"
    using set_trim [of "substring f 0 ?i"] by (auto simp: fragment_entry_def substring_def)
  have "CHR '';'' \<notin> set (take (nat ?i) f)" using f by (auto dest: in_set_takeD)
  then have 2: "CHR '';'' \<notin> set (fst (fragment_entry f))"
    using set_trim [of "substring f 0 ?i"] by (auto simp: fragment_entry_def substring_def)
  have "CHR '';'' \<notin> set (drop (nat (?i + 1)) f)" using f by (auto dest: in_set_dropD)
  then have 3: "CHR '';'' \<notin> set (snd (fragment_entry f))"
    using set_trim [of "substring_from f (?i + 1)"]
    by (auto simp: fragment_entry_def substring_from_def)
  show ?thesis
    using a 1 2 3
    by (simp add: wf_entry_def assigned_fragment_def kept_fragment_def)
       (simp add: fragment_entry_def trim_trim)
qed

lemma set_replace_value: "set (replace_value k v obj) \<subseteq> insert (k, v) (set obj)"
proof (induction obj)
  case Nil
  then show ?case by simp
next
  case (Cons e obj)
  then show ?case by (cases e) auto
qed

lemma set_obj_define: "set (obj_define obj k v) \<subseteq> insert (k, v) (set obj)"
  using set_replace_value [of k v obj]
  by (auto simp: obj_define_def set_insert_index)

lemma wf_declaration_step:
  assumes "\<forall>e \<in> set acc. wf_entry e" and "CHR '';'' \<notin> set f"
  shows "\<forall>e \<in> set (declaration_step acc f). wf_entry e"
proof (cases "assigned_fragment f")
  case True
  then have "declaration_step acc f = obj_define acc (fst (fragment_entry f)) (snd (fragment_entry f))"
    by (simp add: declaration_step_cases assigned_fragment_def)
  then have "set (declaration_step acc f) \<subseteq> insert (fragment_entry f) (set acc)"
    using set_obj_define [of acc "fst (fragment_entry f)" "snd (fragment_entry f)"] by simp
  moreover have "wf_entry (fragment_entry f)" using assms(2) True by (rule wf_fragment_entry)
  ultimately show ?thesis using assms(1) by blast
next
  case False
  then have "declaration_step acc f = acc"
    by (auto simp: declaration_step_cases assigned_fragment_def)
  with assms(1) show ?thesis by simp
qed

lemma wf_declarations_fold:
  "\<forall>e \<in> set acc. wf_entry e \<Longrightarrow> \<forall>f \<in> set fs. CHR '';'' \<notin> set f
   \<Longrightarrow> \<forall>e \<in> set (foldl declaration_step acc fs). wf_entry e"
proof (induction fs arbitrary: acc)
  case Nil
  then show ?case by simp
next
  case (Cons f fs)
  from Cons.prems have "\<forall>e \<in> set (declaration_step acc f). wf_entry e"
    by (intro wf_declaration_step) simp_all
  with Cons.IH [of "declaration_step acc f"] Cons.prems(2) show ?case by simp
qed

lemma wf_parseStyleDeclarations: "\<forall>e \<in> set (parseStyleDeclarations d). wf_entry e"
  unfolding parseStyleDeclarations_def
  by (rule wf_declarations_fold) (auto dest: split_no_sep)

lemma distinct_parseStyleDeclarations: "distinct (map fst (parseStyleDeclarations d))"
  by (simp add: parseStyleDeclarations_def distinct_declarations_fold)

lemma render_entry_roundtrip:
  assumes "wf_entry e"
  shows "fragment_entry (render_entry e) = e" and "assigned_fragment (render_entry e)"
    and "CHR '';'' \<notin> set (render_entry e)"
proof -
  obtain k v where e: "e = (k, v)" by (cases e)
  from assms have k: "CHR '':'' \<notin> set k" "k \<noteq> []" "v \<noteq> []" "trim k = k" "trim v = v"
    "k \<noteq> ''__proto__''" "CHR '';'' \<notin> set k" "CHR '';'' \<notin> set v"
    by (simp_all add: wf_entry_def e)
  have r: "render_entry e = k @ CHR '':'' # v" by (simp add: render_entry_def e)
  have i: "indexOf (k @ CHR '':'' # v) CHR '':'' = int (length k)"
    using indexOf_append [OF k(1), of v] by simp
  show 1: "fragment_entry (render_entry e) = e"
    unfolding fragment_entry_def r i substring_def substring_from_def
    by (simp add: e k nat_add_distrib)
  show "assigned_fragment (render_entry e)"
  proof -
    have "0 < indexOf (render_entry e) CHR '':''" unfolding r i using k by simp
    then show ?thesis
      unfolding assigned_fragment_def kept_fragment_def 1 using k by (simp add: e)
  qed
  show "CHR '';'' \<notin> set (render_entry e)" using k by (simp add: r)
qed

lemma map_of_rev_distinct: "distinct (map fst xs) \<Longrightarrow> map_of (rev xs) = map_of xs"
proof (induction xs)
  case Nil
  then show ?case by simp
next
  case (Cons e xs)
  obtain k v where e: "e = (k, v)" by (cases e)
  from Cons.prems have nk: "map_of xs k = None"
    by (simp add: e map_of_eq_None_iff)
  have "map_of (rev (e # xs)) = map_of [(k, v)] ++ map_of (rev xs)"
    by (simp add: e)
  also have "\<dots> = map_of [(k, v)] ++ map_of xs" using Cons by simp
  also have "\<dots> = (map_of xs)(k \<mapsto> v)"
    using nk by (intro ext) (simp add: map_add_def split: option.splits)
  finally show ?case by (simp add: e)
qed

lemma parseInlineStyle_style_string:
  assumes wf: "\<forall>e \<in> set m. wf_entry e"
  shows "map_of (parseInlineStyle (style_string m)) = map_of (rev m)"
proof (cases "m = []")
  case True
  then show ?thesis by (simp add: style_string_def parseInlineStyle_def)
next
  case False
  let ?fs = "map render_entry m"
  have nosep: "\<And>x. x \<in> set ?fs \<Longrightarrow> CHR '';'' \<notin> set x"
    using wf render_entry_roundtrip(3) by auto
  have sp: "split CHR '';'' (style_string m) = ?fs"
    unfolding style_string_def using False nosep by (intro split_join) simp_all
  have keep: "filter assigned_fragment ?fs = ?fs"
    using wf render_entry_roundtrip(2) by (auto simp: filter_id_conv)
  have inv: "map fragment_entry ?fs = m"
    using wf render_entry_roundtrip(1) by (simp add: map_idI)
  have "map_of (parseInlineStyle (style_string m)) = map_of (parseStyleDeclarations (style_string m))"
    by (simp add: parseInlineStyle_eq)
  also have "\<dots> = map_of (rev (map fragment_entry (filter assigned_fragment ?fs)))"
    unfolding parseStyleDeclarations_def sp by (simp add: map_of_declarations_fold)
  finally show ?thesis by (simp only: keep inv)
qed

lemma map_of_copy_into:
  "map_of (copy_into target source) = map_of target ++ map_of (rev source)"
  unfolding copy_into_def
proof (induction source arbitrary: target)
  case Nil
  then show ?case by simp
next
  case (Cons e source)
  obtain k v where e: "e = (k, v)" by (cases e)
  let ?f = "\<lambda>obj (k, v). obj_define obj k v"
  have l: "foldl ?f target (e # source) = foldl ?f (obj_define target k v) source"
    by (simp add: e)
  have r: "map_of (rev (e # source)) = [k \<mapsto> v] ++ map_of (rev source)"
    by (simp add: e)
  have 1: "map_of (foldl ?f (obj_define target k v) source)
        = (map_of target)(k \<mapsto> v) ++ map_of (rev source)"
    by (simp only: Cons.IH map_of_obj_define)
  have 2: "(map_of target)(k \<mapsto> v) ++ map_of (rev source)
        = map_of target ++ ([k \<mapsto> v] ++ map_of (rev source))"
    by (rule ext) (simp add: map_add_def split: option.splits)
  show ?case by (simp only: l r 1 2)
qed

lemma set_copy_into: "set (copy_into target source) \<subseteq> set target \<union> set source"
  unfolding copy_into_def
proof (induction source arbitrary: target)
  case Nil
  then show ?case by simp
next
  case (Cons e source)
  obtain k v where e: "e = (k, v)" by (cases e)
  show ?case using Cons.IH [of "obj_define target k v"] set_obj_define [of target k v]
    by (auto simp: e)
qed

lemma distinct_copy_into:
  "distinct (map fst target) \<Longrightarrow> distinct (map fst (copy_into target source))"
  unfolding copy_into_def
proof (induction source arbitrary: target)
  case Nil
  then show ?case by simp
next
  case (Cons e source)
  obtain k v where e: "e = (k, v)" by (cases e)
  show ?case using Cons by (simp add: e distinct_obj_define)
qed

lemma map_of_spread2:
  "map_of (spread2 a b) = map_of (rev a) ++ map_of (rev b)"
  by (simp add: spread2_def map_of_copy_into)

lemma set_spread2: "set (spread2 a b) \<subseteq> set a \<union> set b"
  using set_copy_into [of "copy_into [] a" b] set_copy_into [of "[]" a]
  by (auto simp: spread2_def)

lemma distinct_spread2: "distinct (map fst (spread2 a b))"
  by (simp add: spread2_def distinct_copy_into)

lemma existing_style_setAttribute:
  "existing_style (Element tag (attr_set as ''style'' s) cs) = s"
proof -
  have "map_of (attr_set as n s) n = Some s" for n
    by (induction as n s rule: attr_set.induct) auto
  then show ?thesis by (simp add: existing_style_def attr_get_def)
qed

lemma wf_parseInlineStyle: "\<forall>e \<in> set (parseInlineStyle s). wf_entry e"
  using wf_parseStyleDeclarations [of s] by (simp add: parseInlineStyle_eq)

lemma distinct_parseInlineStyle: "distinct (map fst (parseInlineStyle s))"
  by (simp add: parseInlineStyle_eq distinct_parseStyleDeclarations)

lemma merged_style_reparsed:
  assumes "\<forall>e \<in> set incoming. wf_entry e" and "distinct (map fst incoming)"
  shows "map_of (parseInlineStyle (existing_style (applyStylesToElement (Element tag as cs) incoming)))
         = map_of (parseInlineStyle (existing_style (Element tag as cs))) ++ map_of incoming"
proof -
  let ?old = "parseInlineStyle (existing_style (Element tag as cs))"
  let ?m = "spread2 ?old incoming"
  have "\<forall>e \<in> set ?m. wf_entry e"
    using set_spread2 [of ?old incoming] wf_parseInlineStyle assms(1) by blast
  then have "map_of (parseInlineStyle (style_string ?m)) = map_of (rev ?m)"
    by (rule parseInlineStyle_style_string)
  also have "\<dots> = map_of ?m" by (simp add: map_of_rev_distinct distinct_spread2)
  also have "\<dots> = map_of ?old ++ map_of incoming"
    by (simp add: map_of_spread2 map_of_rev_distinct distinct_parseInlineStyle assms(2))
  finally show ?thesis
    by (simp add: applyStylesToElement_def Let_def existing_style_setAttribute)
qed

section \<open>The merge without array-index keys\<close>

lemma obj_define_plain:
  "\<not> is_array_index k \<Longrightarrow>
   obj_define obj k v = (if has_key obj k then replace_value k v obj else obj @ [(k, v)])"
  by (simp add: obj_define_def)

lemma replace_value_map:
  "distinct (map fst obj) \<Longrightarrow>
   replace_value k v obj = map (\<lambda>(k', v'). (k', if k' = k then v else v')) obj"
proof (induction obj)
  case Nil
  then show ?case by simp
next
  case (Cons e obj)
  obtain k' v' where e: "e = (k', v')" by (cases e)
  show ?case
  proof (cases "k' = k")
    case True
    with Cons.prems have "k \<notin> fst ` set obj" by (simp add: e)
    then have "map (\<lambda>(k', v'). (k', if k' = k then v else v')) obj = obj"
      by (intro map_idI) (auto simp: image_iff)
    then show ?thesis using True by (simp add: e)
  next
    case False
    then show ?thesis using Cons by (simp add: e)
  qed
qed

lemma copy_into_plain:
  assumes "distinct (map fst target)" and "distinct (map fst source)"
    and "list_all (\<lambda>k. \<not> is_array_index k) (map fst source)"
  shows "copy_into target source = spec_merged_entries target source"
  using assms
proof (induction source arbitrary: target)
  case Nil
  then show ?case by (simp add: copy_into_def spec_merged_entries_def)
next
  case (Cons e source)
  obtain k v where e: "e = (k, v)" by (cases e)
  from Cons.prems have nk: "k \<notin> fst ` set source" and ds: "distinct (map fst source)"
    and ni: "\<not> is_array_index k" and ns: "list_all (\<lambda>k. \<not> is_array_index k) (map fst source)"
    by (simp_all add: e)
  have nsrc: "map_of source k = None" using nk by (simp add: map_of_eq_None_iff)
  let ?t = "obj_define target k v"
  have dt: "distinct (map fst ?t)" using Cons.prems(1) by (rule distinct_obj_define)
  have step: "copy_into target (e # source) = copy_into ?t source"
    by (simp add: copy_into_def e)
  have ih: "copy_into ?t source = spec_merged_entries ?t source"
    using dt ds ns by (rule Cons.IH)
  show ?case
  proof (cases "has_key target k")
    case True
    have t: "?t = map (\<lambda>(k', v'). (k', if k' = k then v else v')) target"
      using True ni Cons.prems(1) by (simp add: obj_define_plain replace_value_map)
    have keys: "has_key ?t = has_key target"
      using True by (intro ext) (auto simp: has_key_def keys_obj_define)
    have "spec_merged_entries ?t source = spec_merged_entries target (e # source)"
      unfolding spec_merged_entries_def keys
      using True nsrc by (auto simp: t e has_key_def split: option.splits)
    then show ?thesis by (simp only: step ih)
  next
    case False
    have t: "?t = target @ [(k, v)]" using False ni by (simp add: obj_define_plain)
    have "filter (\<lambda>(k', v'). \<not> has_key (target @ [(k, v)]) k') source
        = filter (\<lambda>(k', v'). \<not> has_key target k') source"
      using nk by (intro filter_cong) (auto simp: has_key_def image_iff)
    moreover have "map (\<lambda>(k', v'). (k', case map_of source k' of Some w \<Rightarrow> w | None \<Rightarrow> v')) target
        = map (\<lambda>(k', v'). (k', case map_of (e # source) k' of Some w \<Rightarrow> w | None \<Rightarrow> v')) target"
      using False by (intro map_cong) (auto simp: has_key_def e image_iff)
    ultimately have "spec_merged_entries ?t source = spec_merged_entries target (e # source)"
      unfolding spec_merged_entries_def t using False nsrc by (simp add: e)
    then show ?thesis by (simp only: step ih)
  qed
qed

lemma spread2_plain:
  assumes "distinct (map fst a)" and "distinct (map fst b)"
    and "list_all (\<lambda>k. \<not> is_array_index k) (map fst a @ map fst b)"
  shows "spread2 a b = spec_merged_entries a b"
proof -
  from assms(3) have na: "list_all (\<lambda>k. \<not> is_array_index k) (map fst a)"
    and nb: "list_all (\<lambda>k. \<not> is_array_index k) (map fst b)" by simp_all
  have "copy_into [] a = spec_merged_entries [] a"
    using _ assms(1) na by (rule copy_into_plain) simp
  also have "\<dots> = a" by (simp add: spec_merged_entries_def has_key_def)
  finally have "copy_into [] a = a" .
  then show ?thesis
    unfolding spread2_def using assms(1,2) nb by (simp add: copy_into_plain)
qed

lemma applyStylesToElement_Element:
  "applyStylesToElement (Element tag as cs) newStyles =
     Element tag
       (attr_set as ''style''
          (style_string (spread2 (parseInlineStyle (existing_style (Element tag as cs))) newStyles)))
       cs"
  by (simp add: applyStylesToElement_def Let_def)

lemma attr_get_attr_set: "attr_get (attr_set as n v) n = Some v"
  unfolding attr_get_def by (induction as n v rule: attr_set.induct) auto

section \<open>The pretty printer after its first replacement\<close>

text \<open>
  The first replacement leaves no \<open>>\<close> directly before a \<open><\<close>, and a match of the second
  or of the third pattern contains one: these two replacements change nothing.
\<close>

lemma match_boundary_Some:
  "match_boundary s = Some (out, rest) \<longleftrightarrow>
     s = CHR ''>'' # CHR ''<'' # rest \<and> out = [CHR ''>'', CHR 0x0A, CHR ''<'']"
  by (auto simp: match_boundary_def split: list.splits if_splits)

lemma replace_boundary_hd:
  assumes "s \<noteq> []"
  shows "replace_global match_boundary s \<noteq> []
     \<and> hd (replace_global match_boundary s) = hd s"
proof -
  from assms obtain c cs where Cons: "s = c # cs" by (cases s) auto
  show ?thesis
  proof (cases "match_boundary (c # cs)")
    case None
    then show ?thesis using Cons by simp
  next
    case (Some x)
    obtain out rest where x: "x = (out, rest)" by (cases x)
    with Some have "c # cs = CHR ''>'' # CHR ''<'' # rest" "out = [CHR ''>'', CHR 0x0A, CHR ''<'']"
      by (simp_all add: match_boundary_Some)
    then show ?thesis using Cons Some x by auto
  qed
qed

lemma boundary_free_Cons:
  "boundary_free (c # s) \<longleftrightarrow> (s = [] \<or> \<not> (c = CHR ''>'' \<and> hd s = CHR ''<'')) \<and> boundary_free s"
  by (cases s) auto

lemma boundary_free_replace: "boundary_free (replace_global match_boundary s)"
proof (induction s rule: length_induct)
  case (1 s)
  show ?case
  proof (cases s)
    case Nil
    then show ?thesis by simp
  next
    case (Cons c cs)
    have ih: "boundary_free (replace_global match_boundary u)" if "length u < length s" for u
      using 1 that by blast
    show ?thesis
    proof (cases "match_boundary (c # cs)")
      case None
      have tail: "boundary_free (replace_global match_boundary cs)"
        using ih [of cs] Cons by simp
      have "cs = [] \<or> \<not> (c = CHR ''>'' \<and> hd cs = CHR ''<'')"
        using None by (auto simp: match_boundary_def split: list.splits if_splits)
      then have "replace_global match_boundary cs = []
          \<or> \<not> (c = CHR ''>'' \<and> hd (replace_global match_boundary cs) = CHR ''<'')"
      proof (cases "cs = []")
        case True
        then show ?thesis by simp
      next
        case False
        assume "cs = [] \<or> \<not> (c = CHR ''>'' \<and> hd cs = CHR ''<'')"
        with False replace_boundary_hd [OF False] show ?thesis by simp
      qed
      then show ?thesis using None Cons tail by (simp add: boundary_free_Cons)
    next
      case (Some x)
      obtain out rest where x: "x = (out, rest)" by (cases x)
      with Some have s: "c # cs = CHR ''>'' # CHR ''<'' # rest"
        and out: "out = [CHR ''>'', CHR 0x0A, CHR ''<'']"
        by (simp_all add: match_boundary_Some)
      have "boundary_free (replace_global match_boundary rest)"
        using ih [of rest] Cons s by simp
      then have "boundary_free (out @ replace_global match_boundary rest)"
        by (simp add: out boundary_free_Cons)
      moreover have "replace_global match_boundary s = out @ replace_global match_boundary rest"
        using Some x s Cons by simp
      ultimately show ?thesis by simp
    qed
  qed
qed

lemma boundary_in_middle: "\<not> boundary_free (p @ CHR ''>'' # CHR ''<'' # q)"
  by (induction p) (auto simp: boundary_free_Cons)

lemma closing_tag_shape:
  assumes "closing_tag s = Some (t, r)"
  shows "\<exists>p. s = CHR ''<'' # p @ CHR ''>'' # r"
proof -
  from assms obtain c1 c2 u where s: "s = c1 # c2 # u"
    by (auto simp: closing_tag_def split: list.splits)
  from assms s have c: "c1 = CHR ''<''" "c2 = CHR ''/''"
    and d: "dropWhile is_alnum u \<noteq> []" "hd (dropWhile is_alnum u) = CHR ''>''"
    and r: "r = tl (dropWhile is_alnum u)"
    by (auto simp: closing_tag_def Let_def split: if_splits)
  have "u = takeWhile is_alnum u @ dropWhile is_alnum u" by simp
  also have "dropWhile is_alnum u = CHR ''>'' # r" using d r by (cases "dropWhile is_alnum u") auto
  finally have "s = CHR ''<'' # (CHR ''/'' # takeWhile is_alnum u) @ CHR ''>'' # r"
    using s c by simp
  then show ?thesis by blast
qed

lemma opening_tag_shape:
  assumes "opening_tag s = Some (t, r)"
  shows "\<exists>p. s = CHR ''<'' # p @ CHR ''>'' # r"
proof -
  let ?P = "\<lambda>c. c \<noteq> CHR ''>''"
  from assms obtain c1 c2 u where s: "s = c1 # c2 # u"
    by (auto simp: opening_tag_def split: list.splits)
  from assms s have c: "c1 = CHR ''<''"
    and d: "dropWhile ?P u \<noteq> []"
    and r: "r = tl (dropWhile ?P u)"
    by (auto simp: opening_tag_def Let_def split: if_splits)
  have "\<not> ?P (hd (dropWhile ?P u))" using d by (rule hd_dropWhile)
  then have dd: "dropWhile ?P u = CHR ''>'' # r" using d r by (cases "dropWhile ?P u") auto
  have "u = takeWhile ?P u @ dropWhile ?P u" by simp
  then have "s = CHR ''<'' # (c2 # takeWhile ?P u) @ CHR ''>'' # r"
    using s c dd by simp
  then show ?thesis by blast
qed

lemma closing_pair_boundary: "match_closing_pair s \<noteq> None \<Longrightarrow> \<not> boundary_free s"
proof -
  assume "match_closing_pair s \<noteq> None"
  then obtain t1 r1 t2 r2 where 1: "closing_tag s = Some (t1, r1)" and 2: "closing_tag r1 = Some (t2, r2)"
    by (auto simp: match_closing_pair_def split: option.splits)
  from closing_tag_shape [OF 1] obtain p where "s = CHR ''<'' # p @ CHR ''>'' # r1" by blast
  moreover from closing_tag_shape [OF 2] obtain q where "r1 = CHR ''<'' # q @ CHR ''>'' # r2" by blast
  ultimately have "s = (CHR ''<'' # p) @ CHR ''>'' # CHR ''<'' # (q @ CHR ''>'' # r2)" by simp
  then show ?thesis using boundary_in_middle by metis
qed

lemma opening_pair_boundary: "match_opening_pair s \<noteq> None \<Longrightarrow> \<not> boundary_free s"
proof -
  assume "match_opening_pair s \<noteq> None"
  then obtain t1 r1 t2 r2 where 1: "opening_tag s = Some (t1, r1)" and 2: "opening_tag r1 = Some (t2, r2)"
    by (auto simp: match_opening_pair_def split: option.splits)
  from opening_tag_shape [OF 1] obtain p where "s = CHR ''<'' # p @ CHR ''>'' # r1" by blast
  moreover from opening_tag_shape [OF 2] obtain q where "r1 = CHR ''<'' # q @ CHR ''>'' # r2" by blast
  ultimately have "s = (CHR ''<'' # p) @ CHR ''>'' # CHR ''<'' # (q @ CHR ''>'' # r2)" by simp
  then show ?thesis using boundary_in_middle by metis
qed

lemma replace_global_no_match:
  assumes "\<And>u. m u \<noteq> None \<Longrightarrow> \<not> boundary_free u"
  shows "boundary_free s \<Longrightarrow> replace_global m s = s"
proof (induction s)
  case Nil
  then show ?case by simp
next
  case (Cons c cs)
  then have "m (c # cs) = None" using assms by blast
  moreover have "boundary_free cs" using Cons.prems by (simp add: boundary_free_Cons)
  ultimately show ?case using Cons.IH by simp
qed

lemma formatXML_two_steps:
  "formatXML s = replace_global match_indented_closing (replace_global match_boundary s)"
proof -
  let ?t = "replace_global match_boundary s"
  have bf: "boundary_free ?t" by (rule boundary_free_replace)
  have 2: "replace_global match_closing_pair ?t = ?t"
    using closing_pair_boundary bf by (rule replace_global_no_match)
  have 3: "replace_global match_opening_pair ?t = ?t"
    using opening_pair_boundary bf by (rule replace_global_no_match)
  show ?thesis by (simp only: formatXML_def 2 3)
qed

section \<open>Elements under a change of attributes\<close>

lemma tag_at_element_at: "tag_at t p = map_option fst (element_at t p)"
  by (simp add: tag_at_def element_at_def split: option.splits node.splits)

lemma attribute_at_element_at:
  "attribute_at t p name = (case element_at t p of Some (tag, as) \<Rightarrow> attr_get as name | None \<Rightarrow> None)"
  by (simp add: attribute_at_def element_at_def split: option.splits node.splits)

lemma subtree_at_not_Detached: "subtree_at t p \<noteq> Some (Detached n)"
  by (induction t p rule: subtree_at.induct) auto

lemma element_at_modify:
  "element_at (modify_at (map_attrs g) t q) p =
     (if p = q then map_option (\<lambda>(tag, as). (tag, g as)) (element_at t p) else element_at t p)"
proof (induction t p arbitrary: q rule: subtree_at.induct)
  case (1 n p)
  then show ?case by (simp add: element_at_def)
next
  case (2 tag as cs i p)
  show ?case
  proof (cases q)
    case Nil
    then show ?thesis by (simp add: element_at_def)
  next
    case (Cons j q')
    show ?thesis
    proof (cases "i < length cs")
      case False
      then show ?thesis using Cons by (simp add: element_at_def)
    next
      case True
      show ?thesis
      proof (cases "j = i")
        case True': True
        have "element_at (modify_at (map_attrs g) (cs ! i) q') p =
          (if p = q' then map_option (\<lambda>(tag, as). (tag, g as)) (element_at (cs ! i) p)
           else element_at (cs ! i) p)"
          using 2 True by simp
        then show ?thesis using True True' Cons by (simp add: element_at_def)
      next
        case False
        then show ?thesis using True Cons by (auto simp: element_at_def)
      qed
    qed
  qed
next
  case (3 s i p)
  then show ?case by (cases q) (simp_all add: element_at_def)
next
  case (4 s i p)
  then show ?case by (cases q) (simp_all add: element_at_def)
next
  case (5 tag as cs)
  then show ?case by (cases q) (simp_all add: element_at_def)
next
  case (6 s)
  then show ?case by (cases q) (simp_all add: element_at_def)
next
  case (7 s)
  then show ?case by (cases q) (simp_all add: element_at_def)
qed

lemma element_paths_modify:
  "element_paths (modify_at (map_attrs g) t q) = element_paths t"
proof (induction "map_attrs g" t q rule: modify_at.induct)
  case (2 tag as cs i p)
  show ?case
  proof (cases "i < length cs")
    case False
    then show ?thesis by simp
  next
    case True
    let ?cs' = "cs[i := modify_at (map_attrs g) (cs ! i) p]"
    have "element_paths (?cs' ! k) = element_paths (cs ! k)" if "k < length cs" for k
      using 2 True that by (cases "k = i") simp_all
    then have eq: "map (\<lambda>k. map ((#) k) (element_paths (?cs' ! k))) [0..<length cs]
        = map (\<lambda>k. map ((#) k) (element_paths (cs ! k))) [0..<length cs]"
      by (intro map_cong) simp_all
    show ?thesis using True by (simp add: eq)
  qed
next
  case (5 tag as cs)
  then show ?case by simp
qed simp_all

lemma descendant_paths_modify:
  "descendant_paths (modify_at (map_attrs g) t q) = descendant_paths t"
  by (simp add: descendant_paths_def element_paths_modify)

lemma element_paths_element:
  "p \<in> set (element_paths t) \<Longrightarrow> element_at t p \<noteq> None"
proof (induction t arbitrary: p rule: element_paths.induct)
  case (1 tag as cs)
  show ?case
  proof (cases p)
    case Nil
    then show ?thesis by (simp add: element_at_def)
  next
    case (Cons i p')
    with 1(2) have i: "i < length cs" and "p' \<in> set (element_paths (cs ! i))" by auto
    then have "element_at (cs ! i) p' \<noteq> None" using 1(1) by simp
    then show ?thesis using Cons i by (simp add: element_at_def)
  qed
qed simp_all

lemma applyStylesToElement_map_attrs:
  "(\<lambda>element. applyStylesToElement element newStyles) =
     map_attrs (\<lambda>as. attr_set as ''style''
        (style_string (spread2
           (parseInlineStyle (case attr_get as ''style'' of None \<Rightarrow> [] | Some s \<Rightarrow> s)) newStyles)))"
proof
  fix element
  show "applyStylesToElement element newStyles =
     map_attrs (\<lambda>as. attr_set as ''style''
        (style_string (spread2
           (parseInlineStyle (case attr_get as ''style'' of None \<Rightarrow> [] | Some s \<Rightarrow> s)) newStyles))) element"
    by (cases element) (simp_all add: applyStylesToElement_def existing_style_def Let_def)
qed

lemma removeAttribute_map_attrs:
  "(\<lambda>element. removeAttribute element name) = map_attrs (\<lambda>as. attr_remove as name)"
proof
  fix element
  show "removeAttribute element name = map_attrs (\<lambda>as. attr_remove as name) element"
    by (cases element) simp_all
qed

lemma attr_get_attr_set_other: "name \<noteq> n \<Longrightarrow> attr_get (attr_set as n v) name = attr_get as name"
  unfolding attr_get_def by (induction as n v rule: attr_set.induct) auto

lemma attr_get_attr_remove:
  "attr_get (attr_remove as n) name = (if name = n then None else attr_get as name)"
  unfolding attr_get_def attr_remove_def
  by (induction as) (auto simp: map_of_eq_None_iff)

lemma class_after_style:
  "attribute_at (modify_at (\<lambda>element. applyStylesToElement element newStyles) t q) p ''class''
     = attribute_at t p ''class''"
  unfolding applyStylesToElement_map_attrs attribute_at_element_at element_at_modify
  by (auto simp: attr_get_attr_set_other split: option.splits)

lemma class_after_remove:
  "attribute_at (modify_at (\<lambda>element. removeAttribute element ''class'') t q) p ''class''
     = (if p = q then None else attribute_at t p ''class'')"
  unfolding removeAttribute_map_attrs attribute_at_element_at element_at_modify
  by (auto simp: attr_get_attr_remove split: option.splits)

lemma tag_after_style:
  "tag_at (modify_at (\<lambda>element. applyStylesToElement element newStyles) t q) p = tag_at t p"
  unfolding applyStylesToElement_map_attrs tag_at_element_at element_at_modify
  by (cases "element_at t p") auto

lemma tag_after_remove:
  "tag_at (modify_at (\<lambda>element. removeAttribute element name) t q) p = tag_at t p"
  unfolding removeAttribute_map_attrs tag_at_element_at element_at_modify
  by (cases "element_at t p") auto

section \<open>The matching passes\<close>

lemma apply_to_elements_count:
  "snd (apply_to_elements newStyles ps (t, n)) = n + length ps"
  by (induction ps arbitrary: t n) simp_all

lemma apply_to_elements_tree:
  "fst (apply_to_elements newStyles ps (t, n)) = fst (apply_to_elements newStyles ps (t, 0))"
  by (induction ps arbitrary: t n) (simp_all, metis)

lemma apply_to_elements_paths:
  "element_paths (fst (apply_to_elements newStyles ps (t, n))) = element_paths t"
  by (induction ps arbitrary: t n)
     (simp_all add: applyStylesToElement_map_attrs element_paths_modify)

lemma apply_to_elements_class:
  "attribute_at (fst (apply_to_elements newStyles ps (t, n))) p ''class'' = attribute_at t p ''class''"
  by (induction ps arbitrary: t n) (simp_all add: class_after_style)

lemma apply_to_elements_tag:
  "tag_at (fst (apply_to_elements newStyles ps (t, n))) p = tag_at t p"
  by (induction ps arbitrary: t n) (simp_all add: tag_after_style)

lemma structural_pass_result:
  "structural_pass env ctx rules (t, c, n) = Inr (t', c', n') \<Longrightarrow>
     c' = c + length rules
     \<and> n' = n + length (structural_merges env ctx rules t)
     \<and> element_paths t' = element_paths t
     \<and> (\<forall>p. attribute_at t' p ''class'' = attribute_at t p ''class'')
     \<and> (\<forall>p. tag_at t' p = tag_at t p)"
proof (induction rules arbitrary: t c n)
  case Nil
  then show ?case by simp
next
  case (Cons rule rules)
  from Cons.prems obtain els where q: "querySelectorAll env ctx t (selector rule) = Inr els"
    by (cases "querySelectorAll env ctx t (selector rule)") simp_all
  define t1 where "t1 = fst (apply_to_elements (styles rule) els (t, n))"
  have ap: "apply_to_elements (styles rule) els (t, n) = (t1, n + length els)"
    using apply_to_elements_count [of "styles rule" els t n]
    by (simp add: t1_def prod_eq_iff)
  from Cons.prems have "structural_pass env ctx rules (t1, c + 1, n + length els) = Inr (t', c', n')"
    by (simp add: q ap)
  from Cons.IH [OF this]
  have ih: "c' = c + 1 + length rules"
    "n' = n + length els + length (structural_merges env ctx rules t1)"
    "element_paths t' = element_paths t1"
    "\<forall>p. attribute_at t' p ''class'' = attribute_at t1 p ''class''"
    "\<forall>p. tag_at t' p = tag_at t1 p"
    by simp_all
  have t10: "fst (apply_to_elements (styles rule) els (t, 0)) = t1"
    unfolding t1_def by (rule apply_to_elements_tree [symmetric])
  have m: "structural_merges env ctx (rule # rules) t
      = map (Pair rule) els @ structural_merges env ctx rules t1"
    by (simp add: q t10)
  show ?case
    using ih unfolding m
    by (simp add: t1_def apply_to_elements_paths apply_to_elements_class apply_to_elements_tag)
qed

lemma structural_pass_fails:
  "(\<exists>err. structural_pass env ctx rules state = Inl err) \<longleftrightarrow>
     (\<exists>rule \<in> set rules. selector_matcher env (selector rule) = None)"
proof (induction rules arbitrary: state)
  case Nil
  then show ?case by simp
next
  case (Cons rule rules)
  obtain t c n where st: "state = (t, c, n)" by (cases state)
  show ?case
  proof (cases "selector_matcher env (selector rule)")
    case None
    then show ?thesis by (simp add: st querySelectorAll_def)
  next
    case (Some m)
    then show ?thesis
      using Cons.IH by (simp add: st querySelectorAll_def split: prod.splits)
  qed
qed

lemma structural_pass_error:
  "structural_pass env ctx rules state = Inl err \<longleftrightarrow>
     (case find (\<lambda>rule. selector_matcher env (selector rule) = None) rules of
        Some rule \<Rightarrow> err = SelectorSyntaxError (selector rule)
      | None \<Rightarrow> False)"
proof (induction rules arbitrary: state)
  case Nil
  then show ?case by simp
next
  case (Cons rule rules)
  obtain t c n where st: "state = (t, c, n)" by (cases state)
  show ?case
  proof (cases "selector_matcher env (selector rule)")
    case None
    then show ?thesis by (auto simp: st querySelectorAll_def)
  next
    case (Some m)
    then show ?thesis
      using Cons.IH by (simp add: st querySelectorAll_def split: prod.splits)
  qed
qed

lemma apply_class_rules_result:
  "snd (apply_class_rules c p rules (t, n)) = n + length (filter (names_class c) rules)
   \<and> element_paths (fst (apply_class_rules c p rules (t, n))) = element_paths t
   \<and> (\<forall>q. attribute_at (fst (apply_class_rules c p rules (t, n))) q ''class'' = attribute_at t q ''class'')
   \<and> (\<forall>q. tag_at (fst (apply_class_rules c p rules (t, n))) q = tag_at t q)"
proof (induction rules arbitrary: t n)
  case Nil
  then show ?case by simp
next
  case (Cons rule rules)
  show ?case
  proof (cases "names_class c rule")
    case True
    let ?t1 = "modify_at (\<lambda>element. applyStylesToElement element (styles rule)) t p"
    from Cons [of ?t1 "n + 1"] show ?thesis
      using True
      by (simp add: class_after_style tag_after_style applyStylesToElement_map_attrs [symmetric])
         (simp add: applyStylesToElement_map_attrs element_paths_modify)
  next
    case False
    with Cons [of t n] show ?thesis by simp
  qed
qed

lemma class_after_idem: "class_after (class_after x) = class_after x"
  by (simp add: class_after_def split: option.splits)

lemma class_step_result:
  "snd (class_step rules p (t, n)) = n + length (class_merges_at rules t p)
   \<and> element_paths (fst (class_step rules p (t, n))) = element_paths t
   \<and> (\<forall>q. attribute_at (fst (class_step rules p (t, n))) q ''class''
          = (if q = p then class_after (attribute_at t p ''class'') else attribute_at t q ''class''))
   \<and> (\<forall>q. tag_at (fst (class_step rules p (t, n))) q = tag_at t q)"
proof (cases "attribute_at t p ''class''")
  case None
  then show ?thesis by (simp add: class_step_def class_merges_at_def class_after_def)
next
  case (Some c)
  show ?thesis
  proof (cases "c = []")
    case True
    then show ?thesis using Some by (simp add: class_step_def class_merges_at_def class_after_def)
  next
    case False
    obtain t1 n1 where a: "apply_class_rules c p rules (t, n) = (t1, n1)"
      by (cases "apply_class_rules c p rules (t, n)")
    from apply_class_rules_result [of c p rules t n] a
    have r: "n1 = n + length (filter (names_class c) rules)" "element_paths t1 = element_paths t"
      "\<forall>q. attribute_at t1 q ''class'' = attribute_at t q ''class''"
      "\<forall>q. tag_at t1 q = tag_at t q"
      by simp_all
    have s: "class_step rules p (t, n)
        = (modify_at (\<lambda>element. removeAttribute element ''class'') t1 p, n1)"
      using Some False a by (simp add: class_step_def)
    show ?thesis
      unfolding s using r Some False
      by (simp add: class_after_remove tag_after_remove class_merges_at_def class_after_def)
         (simp add: removeAttribute_map_attrs element_paths_modify)
  qed
qed

lemma class_pass_result:
  "element_paths (fst (class_pass rules ps (t, n))) = element_paths t
   \<and> (\<forall>q. attribute_at (fst (class_pass rules ps (t, n))) q ''class''
          = (if q \<in> set ps then class_after (attribute_at t q ''class'') else attribute_at t q ''class''))
   \<and> (\<forall>q. tag_at (fst (class_pass rules ps (t, n))) q = tag_at t q)
   \<and> (distinct ps \<longrightarrow>
        snd (class_pass rules ps (t, n)) = n + length (concat (map (class_merges_at rules t) ps)))"
proof (induction ps arbitrary: t n)
  case Nil
  then show ?case by simp
next
  case (Cons p ps)
  obtain t1 n1 where s: "class_step rules p (t, n) = (t1, n1)"
    by (cases "class_step rules p (t, n)")
  from class_step_result [of rules p t n] s
  have r: "n1 = n + length (class_merges_at rules t p)" "element_paths t1 = element_paths t"
    "\<forall>q. attribute_at t1 q ''class''
          = (if q = p then class_after (attribute_at t p ''class'') else attribute_at t q ''class'')"
    "\<forall>q. tag_at t1 q = tag_at t q"
    by simp_all
  note ih = Cons [of t1 n1]
  have same: "class_merges_at rules t1 q = class_merges_at rules t q" if "q \<noteq> p" for q
    using r(3) that by (simp add: class_merges_at_def)
  have "length (concat (map (class_merges_at rules t1) ps))
      = length (concat (map (class_merges_at rules t) ps))" if "distinct (p # ps)"
  proof -
    have "map (class_merges_at rules t1) ps = map (class_merges_at rules t) ps"
      using that by (intro map_cong) (auto intro!: same)
    then show ?thesis by (simp only:)
  qed
  then show ?case
    using ih r by (simp add: s class_after_idem)
qed

section \<open>Document order and removal\<close>

lemma indexed_distinct:
  "(\<And>i. i \<in> set js \<Longrightarrow> distinct (g i)) \<Longrightarrow> distinct js
   \<Longrightarrow> distinct (concat (map (\<lambda>i. map ((#) i) (g i)) js))"
proof (induction js)
  case Nil
  then show ?case by simp
next
  case (Cons j js)
  have "distinct (map ((#) j) (g j))" using Cons.prems(1) [of j] by (simp add: distinct_map)
  moreover have "distinct (concat (map (\<lambda>i. map ((#) i) (g i)) js))"
    using Cons by simp
  moreover have "set (map ((#) j) (g j)) \<inter> set (concat (map (\<lambda>i. map ((#) i) (g i)) js)) = {}"
    using Cons.prems(2) by auto
  ultimately show ?case by simp
qed

lemma distinct_element_paths: "distinct (element_paths t)"
proof (induction t rule: element_paths.induct)
  case (1 tag as cs)
  have "distinct (concat (map (\<lambda>i. map ((#) i) (element_paths (cs ! i))) [0..<length cs]))"
    using 1 by (intro indexed_distinct) simp_all
  then show ?case by auto
qed simp_all

lemma indexed_sorted:
  "(\<And>i. i \<in> set js \<Longrightarrow> sorted_wrt (\<lambda>q p. \<not> below q p) (g i)) \<Longrightarrow> distinct js
   \<Longrightarrow> sorted_wrt (\<lambda>q p. \<not> below q p) (concat (map (\<lambda>i. map ((#) i) (g i)) js))"
proof (induction js)
  case Nil
  then show ?case by simp
next
  case (Cons j js)
  have "sorted_wrt (\<lambda>q p. \<not> below q p) (map ((#) j) (g j))"
    using Cons.prems(1) [of j] by (simp add: sorted_wrt_map)
  moreover have "sorted_wrt (\<lambda>q p. \<not> below q p) (concat (map (\<lambda>i. map ((#) i) (g i)) js))"
    using Cons by simp
  moreover have "\<forall>q \<in> set (map ((#) j) (g j)).
      \<forall>p \<in> set (concat (map (\<lambda>i. map ((#) i) (g i)) js)). \<not> below q p"
    using Cons.prems(2) by auto
  ultimately show ?case by (simp add: sorted_wrt_append)
qed

lemma sorted_element_paths: "sorted_wrt (\<lambda>q p. \<not> below q p) (element_paths t)"
proof (induction t rule: element_paths.induct)
  case (1 tag as cs)
  have "sorted_wrt (\<lambda>q p. \<not> below q p)
          (concat (map (\<lambda>i. map ((#) i) (element_paths (cs ! i))) [0..<length cs]))"
    using 1 by (intro indexed_sorted) simp_all
  moreover have "\<not> below [] p" for p by (cases p) simp_all
  ultimately show ?case by simp
qed simp_all

lemma subtree_at_detach:
  "\<not> below q p \<Longrightarrow> subtree_at (modify_at Detached t q) p = subtree_at t p"
proof (induction t p arbitrary: q rule: subtree_at.induct)
  case (1 n p)
  then show ?case by simp
next
  case (2 tag as cs i p)
  show ?case
  proof (cases q)
    case Nil
    then show ?thesis by simp
  next
    case (Cons j q')
    show ?thesis
    proof (cases "i < length cs")
      case False
      then show ?thesis using Cons by simp
    next
      case True
      show ?thesis
      proof (cases "j = i")
        case eq: True
        from 2(2) Cons eq have "\<not> below q' p" by simp
        with 2(1) [OF True] have "subtree_at (modify_at Detached (cs ! i) q') p = subtree_at (cs ! i) p"
          by simp
        then show ?thesis using True eq Cons by simp
      next
        case False
        then show ?thesis using True Cons by auto
      qed
    qed
  qed
next
  case (3 s i p)
  then show ?case by (cases q) simp_all
next
  case (4 s i p)
  then show ?case by (cases q) simp_all
next
  case (5 tag as cs)
  then show ?case by (cases q) simp_all
next
  case (6 s)
  then show ?case by (cases q) simp_all
next
  case (7 s)
  then show ?case by (cases q) simp_all
qed

lemma element_paths_detach:
  "set (element_paths (modify_at Detached t q)) \<subseteq> set (element_paths t) - {q}"
proof (induction Detached t q rule: modify_at.induct)
  case (1 n p)
  then show ?case by simp
next
  case (2 tag as cs i p)
  show ?case
  proof (cases "i < length cs")
    case False
    then show ?thesis by auto
  next
    case True
    let ?cs' = "cs[i := modify_at Detached (cs ! i) p]"
    have sub: "set (element_paths (?cs' ! k)) \<subseteq> set (element_paths (cs ! k)) - (if k = i then {p} else {})"
      if "k < length cs" for k
      using 2 True that by (cases "k = i") simp_all
    show ?thesis
    proof
      fix x assume x: "x \<in> set (element_paths (modify_at Detached (Element tag as cs) (i # p)))"
      show "x \<in> set (element_paths (Element tag as cs)) - {i # p}"
      proof (cases x)
        case Nil
        then show ?thesis by simp
      next
        case (Cons k y)
        with x True have k: "k < length cs" and y: "y \<in> set (element_paths (?cs' ! k))" by auto
        from sub [OF k] y have "y \<in> set (element_paths (cs ! k))" and "k = i \<Longrightarrow> y \<noteq> p"
          by auto
        then show ?thesis using Cons k by auto
      qed
    qed
  qed
next
  case (3 s i p)
  then show ?case by simp
next
  case (4 s i p)
  then show ?case by simp
next
  case (5 tag as cs)
  then show ?case by simp
next
  case (6 s)
  then show ?case by simp
next
  case (7 s)
  then show ?case by simp
qed

lemma element_at_detach: "element_at (modify_at Detached t q) p = element_at t p"
proof (induction t p arbitrary: q rule: subtree_at.induct)
  case (1 n p)
  then show ?case by (simp add: element_at_def)
next
  case (2 tag as cs i p)
  show ?case
  proof (cases q)
    case Nil
    then show ?thesis by (simp add: element_at_def)
  next
    case (Cons j q')
    show ?thesis
    proof (cases "i < length cs")
      case False
      then show ?thesis using Cons by (simp add: element_at_def)
    next
      case True
      show ?thesis
      proof (cases "j = i")
        case eq: True
        have "element_at (modify_at Detached (cs ! i) q') p = element_at (cs ! i) p"
          using 2 True by simp
        then show ?thesis using True eq Cons by (simp add: element_at_def)
      next
        case False
        then show ?thesis using True Cons by (auto simp: element_at_def)
      qed
    qed
  qed
next
  case (3 s i p)
  then show ?case by (cases q) (simp_all add: element_at_def)
next
  case (4 s i p)
  then show ?case by (cases q) (simp_all add: element_at_def)
next
  case (5 tag as cs)
  then show ?case by (cases q) (simp_all add: element_at_def)
next
  case (6 s)
  then show ?case by (cases q) (simp_all add: element_at_def)
next
  case (7 s)
  then show ?case by (cases q) (simp_all add: element_at_def)
qed

lemma element_at_subtree: "element_at t p \<noteq> None \<Longrightarrow> subtree_at t p \<noteq> None"
  by (auto simp: element_at_def split: option.splits)

lemma extract_styles_live:
  assumes "p \<in> set (element_paths (fst (extract_styles env ps (t, rules))))"
  shows "p \<in> set (element_paths t) \<and> p \<notin> set ps"
  using assms
proof (induction ps arbitrary: t rules)
  case Nil
  then show ?case by simp
next
  case (Cons q ps)
  show ?case
  proof (cases "subtree_at t q")
    case None
    with Cons have 1: "p \<in> set (element_paths t)" "p \<notin> set ps" by simp_all
    then have "subtree_at t p \<noteq> None" by (intro element_at_subtree element_paths_element)
    with None have "p \<noteq> q" by auto
    with 1 show ?thesis by simp
  next
    case (Some el)
    with Cons have "p \<in> set (element_paths (modify_at Detached t q))" "p \<notin> set ps" by simp_all
    with element_paths_detach [of t q] show ?thesis by auto
  qed
qed

lemma extract_styles_element_at:
  "element_at (fst (extract_styles env ps (t, rules))) p = element_at t p"
proof (induction ps arbitrary: t rules)
  case Nil
  then show ?case by simp
next
  case (Cons q ps)
  then show ?case by (cases "subtree_at t q") (simp_all add: element_at_detach)
qed

lemma extract_styles_rules:
  "sorted_wrt (\<lambda>q p. \<not> below q p) ps \<Longrightarrow>
   snd (extract_styles env ps (t, rules)) =
     rules @ concat (map parseCSS
       (concat (map (\<lambda>p. case subtree_at t p of Some el \<Rightarrow> [css_text env el] | None \<Rightarrow> []) ps)))"
proof (induction ps arbitrary: t rules)
  case Nil
  then show ?case by simp
next
  case (Cons q ps)
  from Cons.prems have s: "sorted_wrt (\<lambda>q p. \<not> below q p) ps" and nb: "\<forall>p \<in> set ps. \<not> below q p"
    by simp_all
  show ?case
  proof (cases "subtree_at t q")
    case None
    then show ?thesis using Cons.IH [OF s] by simp
  next
    case (Some el)
    have eq: "map (\<lambda>p. case subtree_at (modify_at Detached t q) p of Some el \<Rightarrow> [css_text env el] | None \<Rightarrow> []) ps
        = map (\<lambda>p. case subtree_at t p of Some el \<Rightarrow> [css_text env el] | None \<Rightarrow> []) ps"
      using nb by (intro map_cong) (simp_all add: subtree_at_detach)
    show ?thesis using Some by (simp add: Cons.IH [OF s] eq)
  qed
qed

lemma style_elements_extraction: "style_elements (fst (extraction env svg)) = []"
proof -
  let ?t' = "fst (extraction env svg)"
  have "p \<notin> set (style_elements ?t')" for p
  proof
    assume "p \<in> set (style_elements ?t')"
    then have live: "p \<in> set (element_paths ?t')" and ne: "p \<noteq> []"
      and tag: "tag_at ?t' p = Some ''style''"
      by (simp_all add: style_elements_def descendant_paths_def)
    from live have 1: "p \<in> set (element_paths svg)" and 2: "p \<notin> set (style_elements svg)"
      unfolding extraction_def by (auto dest: extract_styles_live)
    have "tag_at svg p = Some ''style''"
      using tag by (simp add: tag_at_element_at extraction_def extract_styles_element_at)
    with 1 ne have "p \<in> set (style_elements svg)"
      by (simp add: style_elements_def descendant_paths_def)
    with 2 show False by simp
  qed
  then show ?thesis by (cases "style_elements ?t'") auto
qed

lemma extraction_rules: "snd (extraction env svg) = concat (map parseCSS (style_texts env svg))"
proof -
  have "sorted_wrt (\<lambda>q p. \<not> below q p) (style_elements svg)"
    unfolding style_elements_def descendant_paths_def
    by (intro sorted_wrt_filter sorted_element_paths)
  then show ?thesis
    unfolding extraction_def style_texts_def by (simp add: extract_styles_rules)
qed

lemma tag_at_child:
  "i < length cs \<Longrightarrow> tag_at (Element tag as cs) (i # p) = tag_at (cs ! i) p"
  by (simp add: tag_at_def)

lemma tags_of_element_paths: "map (tag_at t) (element_paths t) = map Some (live_tags t)"
proof (induction t rule: element_paths.induct)
  case (1 tag as cs)
  have "map (tag_at (Element tag as cs)) (map ((#) i) (element_paths (cs ! i)))
      = map Some (live_tags (cs ! i))" if "i < length cs" for i
    using 1 [of i] that by (simp add: tag_at_child comp_def)
  then have "map (\<lambda>i. map (tag_at (Element tag as cs)) (map ((#) i) (element_paths (cs ! i)))) [0..<length cs]
      = map (\<lambda>i. map Some (live_tags (cs ! i))) [0..<length cs]"
    by (intro map_cong) simp_all
  also have "\<dots> = map (\<lambda>c. map Some (live_tags c)) cs"
    by (intro nth_equalityI) simp_all
  finally have "concat (map (\<lambda>i. map (tag_at (Element tag as cs)) (map ((#) i) (element_paths (cs ! i)))) [0..<length cs])
      = map Some (concat (map live_tags cs))"
    by (simp add: map_concat comp_def)
  then show ?case by (simp add: map_concat comp_def tag_at_def)
qed (simp_all add: tag_at_def)

lemma descendant_paths_Element:
  "descendant_paths (Element tag as cs)
     = concat (map (\<lambda>i. map ((#) i) (element_paths (cs ! i))) [0..<length cs])"
proof -
  have "filter (\<lambda>p. p \<noteq> []) (concat (map (\<lambda>i. map ((#) i) (element_paths (cs ! i))) [0..<length cs]))
      = concat (map (\<lambda>i. map ((#) i) (element_paths (cs ! i))) [0..<length cs])"
    by (rule filter_True) auto
  then show ?thesis by (simp add: descendant_paths_def)
qed

lemma tags_of_descendant_paths:
  "map (tag_at t) (descendant_paths t) = map Some (tl (live_tags t))"
proof (cases t)
  case (Element tag as cs)
  have "map (tag_at t) (element_paths t) = map Some (live_tags t)" by (rule tags_of_element_paths)
  then show ?thesis
    unfolding Element descendant_paths_Element by simp
qed (simp_all add: descendant_paths_def)

lemma live_tags_sweep: "live_tags (sweep t) = live_tags t"
proof (induction t rule: sweep.induct)
  case (1 tag as cs)
  have "map (\<lambda>c. live_tags (sweep c)) (filter (\<lambda>c. \<not> is_detached c) cs)
      = map live_tags (filter (\<lambda>c. \<not> is_detached c) cs)"
    by (intro map_cong) (auto simp: 1)
  then have "concat (map live_tags (map sweep (filter (\<lambda>c. \<not> is_detached c) cs)))
      = concat (map live_tags (filter (\<lambda>c. \<not> is_detached c) cs))"
    by (simp only: map_map comp_def)
  also have "\<dots> = concat (map live_tags cs)"
  proof (induction cs)
    case Nil
    then show ?case by simp
  next
    case (Cons c cs)
    then show ?case by (cases c) simp_all
  qed
  finally show ?case by simp
qed simp_all

lemma style_elements_empty_iff:
  "style_elements t = [] \<longleftrightarrow> ''style'' \<notin> set (tl (live_tags t))"
proof -
  have "style_elements t = [] \<longleftrightarrow> Some ''style'' \<notin> set (map (tag_at t) (descendant_paths t))"
    by (force simp: style_elements_def filter_empty_conv)
  also have "\<dots> \<longleftrightarrow> ''style'' \<notin> set (tl (live_tags t))"
    unfolding tags_of_descendant_paths by auto
  finally show ?thesis .
qed

lemma style_elements_stripped: "style_elements (stripped env svg) = []"
  using style_elements_extraction [of env svg]
  by (simp add: stripped_def style_elements_empty_iff live_tags_sweep)

lemma style_elements_cong:
  "element_paths t' = element_paths t \<Longrightarrow> (\<forall>p. tag_at t' p = tag_at t p)
   \<Longrightarrow> style_elements t' = style_elements t"
  by (simp add: style_elements_def descendant_paths_def)

lemma class_elements_cong:
  "element_paths t' = element_paths t \<Longrightarrow> (\<forall>p. attribute_at t' p ''class'' = attribute_at t p ''class'')
   \<Longrightarrow> class_elements t' = class_elements t"
  by (simp add: class_elements_def descendant_paths_def)

section \<open>The conversion as a whole\<close>

lemma has_tag_fun: "has_tag name ctx root = (\<lambda>p. tag_at root p = Some name)"
  by (rule ext) (simp add: has_tag_def)

lemma has_attribute_fun:
  "has_attribute name ctx root = (\<lambda>p. attribute_at root p name \<noteq> None)"
  by (rule ext) (simp add: has_attribute_def)

lemma query_style: "querySelectorAll env ctx svg ''style'' = Inr (style_elements svg)"
  by (simp add: querySelectorAll_def selector_matcher_def has_tag_fun style_elements_def)

lemma query_class: "querySelectorAll env ctx svg ''[class]'' = Inr (class_elements svg)"
  by (simp add: querySelectorAll_def selector_matcher_def has_attribute_fun class_elements_def)

lemma convert_unfold:
  "convertEmbeddedCSSToInline env ctx svg =
     (case structural_pass env ctx (snd (extraction env svg)) (stripped env svg, 0, 0) of
        Inl err \<Rightarrow> Inl err
      | Inr (svg2, converted, processed) \<Rightarrow>
          Inr (fst (class_pass (snd (extraction env svg)) (class_elements svg2) (svg2, processed)),
               \<lparr>convertedStyles = converted,
                processedElements =
                  snd (class_pass (snd (extraction env svg)) (class_elements svg2) (svg2, processed)),
                cssRules = snd (extraction env svg)\<rparr>))"
  by (simp add: convertEmbeddedCSSToInline_def query_style query_class extraction_def stripped_def
      split: prod.splits sum.splits)

lemma convert_success:
  assumes "convertEmbeddedCSSToInline env ctx svg = Inr (out, res)"
  obtains svg2 n where
    "structural_pass env ctx (cssRules res) (stripped env svg, 0, 0)
       = Inr (svg2, length (cssRules res), n)"
    and "n = length (structural_merges env ctx (cssRules res) (stripped env svg))"
    and "element_paths svg2 = element_paths (stripped env svg)"
    and "\<forall>p. attribute_at svg2 p ''class'' = attribute_at (stripped env svg) p ''class''"
    and "\<forall>p. tag_at svg2 p = tag_at (stripped env svg) p"
    and "out = fst (class_pass (cssRules res) (class_elements svg2) (svg2, n))"
    and "processedElements res = snd (class_pass (cssRules res) (class_elements svg2) (svg2, n))"
    and "convertedStyles res = length (cssRules res)"
    and "cssRules res = snd (extraction env svg)"
proof -
  let ?rules = "snd (extraction env svg)"
  from assms obtain svg2 c n where
    sp: "structural_pass env ctx ?rules (stripped env svg, 0, 0) = Inr (svg2, c, n)"
    and out: "out = fst (class_pass ?rules (class_elements svg2) (svg2, n))"
    and res: "res = \<lparr>convertedStyles = c,
                processedElements = snd (class_pass ?rules (class_elements svg2) (svg2, n)),
                cssRules = ?rules\<rparr>"
    unfolding convert_unfold by (auto split: sum.splits prod.splits)
  from structural_pass_result [OF sp]
  have r: "c = length ?rules" "n = length (structural_merges env ctx ?rules (stripped env svg))"
    "element_paths svg2 = element_paths (stripped env svg)"
    "\<forall>p. attribute_at svg2 p ''class'' = attribute_at (stripped env svg) p ''class''"
    "\<forall>p. tag_at svg2 p = tag_at (stripped env svg) p"
    by simp_all
  show ?thesis
    by (rule that [of svg2 n]) (use sp out res r in simp_all)
qed

lemma class_elements_mem:
  "p \<in> set (descendant_paths t) \<Longrightarrow>
     p \<in> set (class_elements t) \<longleftrightarrow> attribute_at t p ''class'' \<noteq> None"
  by (simp add: class_elements_def)

lemma class_stripping_aux:
  assumes "convertEmbeddedCSSToInline env ctx svg = Inr (out, res)"
  shows "element_paths out = element_paths (stripped env svg)"
    and "p \<in> set (descendant_paths out) \<Longrightarrow>
         attribute_at out p ''class'' = class_after (attribute_at (stripped env svg) p ''class'')"
    and "style_elements out = []"
proof -
  from assms obtain svg2 n where
    paths: "element_paths svg2 = element_paths (stripped env svg)"
    and cls: "\<forall>p. attribute_at svg2 p ''class'' = attribute_at (stripped env svg) p ''class''"
    and tags: "\<forall>p. tag_at svg2 p = tag_at (stripped env svg) p"
    and out: "out = fst (class_pass (cssRules res) (class_elements svg2) (svg2, n))"
    by (rule convert_success)
  note cp = class_pass_result [of "cssRules res" "class_elements svg2" svg2 n]
  show 1: "element_paths out = element_paths (stripped env svg)"
    using cp paths by (simp add: out)
  have "style_elements out = style_elements (stripped env svg)"
    using cp paths tags by (intro style_elements_cong) (simp_all add: out)
  then show "style_elements out = []" by (simp add: style_elements_stripped)
  assume "p \<in> set (descendant_paths out)"
  then have d: "p \<in> set (descendant_paths svg2)"
    using 1 paths by (simp add: descendant_paths_def)
  have "attribute_at out p ''class''
      = (if p \<in> set (class_elements svg2) then class_after (attribute_at svg2 p ''class'')
         else attribute_at svg2 p ''class'')"
    using cp by (simp add: out)
  also have "\<dots> = class_after (attribute_at svg2 p ''class'')"
    using class_elements_mem [OF d] by (auto simp: class_after_def)
  finally show "attribute_at out p ''class'' = class_after (attribute_at (stripped env svg) p ''class'')"
    using cls by simp
qed

lemma rule_match_block:
  assumes "g1 \<noteq> []" "list_all not_brace g1" "list_all not_brace g2"
  shows "rule_match (g1 @ CHR ''{'' # g2 @ CHR ''}'' # rest) = Some (g1, g2, rest)"
proof -
  have nb: "\<not> not_brace CHR ''{''" "\<not> not_brace CHR ''}''" by (simp_all add: not_brace_def)
  have a1: "\<And>x. x \<in> set g1 \<Longrightarrow> not_brace x" and a2: "\<And>x. x \<in> set g2 \<Longrightarrow> not_brace x"
    using assms by (simp_all add: list_all_iff)
  have 1: "takeWhile not_brace (g1 @ CHR ''{'' # g2 @ CHR ''}'' # rest) = g1"
    using a1 nb by (simp add: takeWhile_append2)
  have 2: "dropWhile not_brace (g1 @ CHR ''{'' # g2 @ CHR ''}'' # rest) = CHR ''{'' # g2 @ CHR ''}'' # rest"
    using a1 nb by (simp add: dropWhile_append2)
  have 3: "takeWhile not_brace (g2 @ CHR ''}'' # rest) = g2"
    using a2 nb by (simp add: takeWhile_append2)
  have 4: "dropWhile not_brace (g2 @ CHR ''}'' # rest) = CHR ''}'' # rest"
    using a2 nb by (simp add: dropWhile_append2)
  show ?thesis unfolding rule_match_def 1 2 using assms(1) nb by (simp add: 3 4)
qed

lemma rule_exec_block:
  assumes "g1 \<noteq> []" "list_all not_brace g1" "list_all not_brace g2"
  shows "rule_exec (g1 @ CHR ''{'' # g2 @ CHR ''}'' # rest) = Some (g1, g2, rest)"
proof -
  from assms(1) obtain c cs where g1: "g1 = c # cs" by (cases g1) auto
  have "rule_match ((c # cs) @ CHR ''{'' # g2 @ CHR ''}'' # rest) = Some (c # cs, g2, rest)"
    using assms unfolding g1 by (rule rule_match_block)
  then show ?thesis unfolding g1 by simp
qed

lemma trim_Nil: "trim [] = []"
  by (simp add: trim_def)

lemma dropWhile_all: "list_all P xs \<Longrightarrow> dropWhile P xs = []"
  by (induction xs) simp_all

lemma trim_empty_iff: "trim s = [] \<longleftrightarrow> list_all is_js_space s"
proof
  assume "list_all is_js_space s"
  then show "trim s = []" by (simp add: trim_def dropWhile_all)
next
  assume "trim s = []"
  then have "dropWhile is_js_space (rev (dropWhile is_js_space s)) = []" by (simp add: trim_def)
  then have "\<forall>x \<in> set (dropWhile is_js_space s). is_js_space x"
    by (simp add: dropWhile_eq_Nil_conv)
  moreover have "dropWhile is_js_space s \<noteq> [] \<Longrightarrow> \<not> is_js_space (hd (dropWhile is_js_space s))"
    by (rule hd_dropWhile)
  ultimately have "dropWhile is_js_space s = []"
    by (cases "dropWhile is_js_space s") auto
  then show "list_all is_js_space s" by (simp add: dropWhile_eq_Nil_conv list_all_iff)
qed

lemma doc_query_tag:
  "name = ''svg'' \<or> name = ''parsererror'' \<Longrightarrow>
   doc_querySelector env doc name = Inr (first_element doc name)"
  by (auto simp: doc_querySelector_def selector_matcher_def has_tag_fun first_element_def)

lemma convert_failure:
  "convertEmbeddedCSSToInline env ctx svg = Inl err \<longleftrightarrow>
     (case refused_rule env (snd (extraction env svg)) of
        Some rule \<Rightarrow> err = SelectorSyntaxError (selector rule)
      | None \<Rightarrow> False)"
  unfolding convert_unfold refused_rule_def
  using structural_pass_error [of env ctx "snd (extraction env svg)" "(stripped env svg, 0, 0)" err]
  by (auto split: sum.splits prod.splits)

lemma convert_refused:
  "refused_rule env (snd (extraction env svg)) = Some rule \<Longrightarrow>
   convertEmbeddedCSSToInline env ctx svg = Inl (SelectorSyntaxError (selector rule))"
  using convert_failure [of env ctx svg "SelectorSyntaxError (selector rule)"] by simp

lemma convert_accepted:
  assumes "convertEmbeddedCSSToInline env ctx svg = Inr r"
  shows "refused_rule env (snd (extraction env svg)) = None"
proof (cases "refused_rule env (snd (extraction env svg))")
  case None
  then show ?thesis .
next
  case (Some rule)
  from convert_refused [OF this, of ctx] assms show ?thesis by simp
qed

lemma convertSVG_unfold:
  "convertSVG env input =
     (if trim input = [] then Ready
      else case first_element (parseFromString env (trim input)) ''parsererror'' of
        Some e \<Rightarrow> Failed InvalidSVGFormat
      | None \<Rightarrow>
          (case first_element (parseFromString env (trim input)) ''svg'' of
             None \<Rightarrow> Failed NoSVGElement
           | Some p \<Rightarrow>
               (case subtree_at (parseFromString env (trim input)) p of
                  None \<Rightarrow> Failed NoSVGElement
                | Some svg \<Rightarrow>
                    (case convertEmbeddedCSSToInline env (parseFromString env (trim input), p) svg of
                       Inl err \<Rightarrow> Failed err
                     | Inr (svg', result) \<Rightarrow>
                         Converted (formatXML (serializeToString env svg')) result))))"
  by (simp add: convertSVG_def Let_def doc_query_tag split: option.splits)

lemma conversion_failures_aux:
  "convertSVG env input = Failed err \<longleftrightarrow>
     trim input \<noteq> [] \<and>
     (case first_element (parseFromString env (trim input)) ''parsererror'' of
        Some e \<Rightarrow> err = InvalidSVGFormat
      | None \<Rightarrow>
          (case first_element (parseFromString env (trim input)) ''svg'' of
             None \<Rightarrow> err = NoSVGElement
           | Some p \<Rightarrow>
               (case subtree_at (parseFromString env (trim input)) p of
                  None \<Rightarrow> err = NoSVGElement
                | Some svg \<Rightarrow>
                    (case refused_rule env (snd (extraction env svg)) of
                       Some rule \<Rightarrow> err = SelectorSyntaxError (selector rule)
                     | None \<Rightarrow> False))))"
  unfolding convertSVG_unfold
  by (auto simp: convert_failure dest: convert_accepted split: option.splits sum.splits prod.splits)

lemma blank_aux: "convertSVG env input = Ready \<longleftrightarrow> list_all is_js_space input"
  unfolding convertSVG_unfold trim_empty_iff [symmetric]
  by (auto split: option.splits sum.splits prod.splits)

lemma example_conversion:
  "convertEmbeddedCSSToInline (table_env []) (example_svg, []) example_svg
     = Inr (example_out, example_result)"
  by code_simp

section \<open>The blocks of a style text\<close>

lemma pieces_ok:
  "pieces s = (run, ps) \<Longrightarrow>
     list_all not_brace run \<and> list_all wf_piece ps \<and> unpieces run ps = s"
proof (induction s arbitrary: run ps)
  case Nil
  then show ?case by (simp add: unpieces_def)
next
  case (Cons c cs)
  obtain run' ps' where p: "pieces cs = (run', ps')" by (cases "pieces cs")
  from Cons.IH [OF p] have ih: "list_all not_brace run'" "list_all wf_piece ps'"
    "unpieces run' ps' = cs" by simp_all
  show ?case
  proof (cases "not_brace c")
    case True
    with Cons.prems p have "run = c # run'" "ps = ps'" by simp_all
    with ih True show ?thesis by (simp add: unpieces_def)
  next
    case False
    with Cons.prems p have "run = []" "ps = (c, run') # ps'" by simp_all
    moreover have "wf_piece (c, run')" using False ih(1) by (simp add: wf_piece_def)
    ultimately show ?thesis using ih by (simp add: unpieces_def)
  qed
qed

lemma rule_match_brace: "\<not> not_brace b \<Longrightarrow> rule_match (b # s) = None"
  by (simp add: rule_match_def)

lemma rule_exec_run: "list_all not_brace run \<Longrightarrow> rule_exec run = None"
proof (induction run)
  case Nil
  then show ?case by simp
next
  case (Cons c cs)
  then have "dropWhile not_brace (c # cs) = []" by (simp add: dropWhile_all)
  then have "rule_match (c # cs) = None" by (simp add: rule_match_def Let_def)
  with Cons show ?case by simp
qed

lemma rule_exec_skip:
  assumes "list_all not_brace run" "\<not> not_brace b"
    and "run = [] \<or> b \<noteq> CHR ''{'' \<or> dropWhile not_brace s = [] \<or> hd (dropWhile not_brace s) \<noteq> CHR ''}''"
  shows "rule_exec (run @ b # s) = rule_exec s"
  using assms
proof (induction run)
  case Nil
  then show ?case by (simp add: rule_match_brace)
next
  case (Cons c cs)
  from Cons.prems(1) have c: "not_brace c" and cs: "list_all not_brace cs" by simp_all
  from Cons.prems(3) have k: "b \<noteq> CHR ''{'' \<or> dropWhile not_brace s = [] \<or> hd (dropWhile not_brace s) \<noteq> CHR ''}''"
    by simp
  have a: "\<And>x. x \<in> set (c # cs) \<Longrightarrow> not_brace x"
    using Cons.prems(1) by (auto simp: list_all_iff)
  have 1: "takeWhile not_brace ((c # cs) @ b # s) = c # cs"
    using a Cons.prems(2) by (simp only: takeWhile_append2) simp
  have 2: "dropWhile not_brace ((c # cs) @ b # s) = b # s"
    using a Cons.prems(2) by (simp only: dropWhile_append2) simp
  have "rule_match ((c # cs) @ b # s) = None"
    unfolding rule_match_def 1 2 using k by (auto simp: Let_def)
  then have "rule_exec ((c # cs) @ b # s) = rule_exec (cs @ b # s)" by simp
  also have "\<dots> = rule_exec s"
    using cs Cons.prems(2) by (rule Cons.IH) (use k in simp)
  finally show ?case .
qed

lemma parseCSS_cong: "rule_exec a = rule_exec b \<Longrightarrow> parseCSS a = parseCSS b"
  by (simp add: parseCSS.simps [of a] parseCSS.simps [of b])

lemma parseCSS_no_match: "rule_exec a = None \<Longrightarrow> parseCSS a = []"
  by (simp add: parseCSS.simps [of a])

lemma parseCSS_pieces:
  "list_all not_brace run \<Longrightarrow> list_all wf_piece ps \<Longrightarrow>
     parseCSS (unpieces run ps) = map block_rule (filter kept_block (blocks_of run ps))"
proof (induction run ps rule: blocks_of.induct)
  case (1 run b1 r1 b2 r2 rest)
  from 1(4) have w0: "wf_piece (b1, r1)" "wf_piece (b2, r2)" and w5: "list_all wf_piece rest"
    by simp_all
  from w0 w5 have w: "\<not> not_brace b1" "list_all not_brace r1" "\<not> not_brace b2"
    "list_all not_brace r2" "list_all wf_piece rest"
    by (simp_all add: wf_piece_def)
  have t: "unpieces run ((b1, r1) # (b2, r2) # rest) = run @ b1 # r1 @ b2 # unpieces r2 rest"
    by (simp add: unpieces_def)
  show ?case
  proof (cases "run \<noteq> [] \<and> b1 = CHR ''{'' \<and> b2 = CHR ''}''")
    case True
    then have ne: "run \<noteq> []" and b: "b1 = CHR ''{''" "b2 = CHR ''}''" by simp_all
    have e: "rule_exec (run @ CHR ''{'' # r1 @ CHR ''}'' # unpieces r2 rest)
        = Some (run, r1, unpieces r2 rest)"
      using ne 1(3) w(2) by (rule rule_exec_block)
    have ih: "parseCSS (unpieces r2 rest) = map block_rule (filter kept_block (blocks_of r2 rest))"
      using True w(4,5) by (rule 1(1))
    have P: "parseCSS (run @ CHR ''{'' # r1 @ CHR ''}'' # unpieces r2 rest)
        = (if trim run \<noteq> [] \<and> trim r1 \<noteq> []
           then [\<lparr>selector = trim run, styles = parseStyleDeclarations (trim r1)\<rparr>] else [])
          @ parseCSS (unpieces r2 rest)"
      by (subst parseCSS.simps) (simp add: e Let_def)
    have lhs: "unpieces run ((b1, r1) # (b2, r2) # rest)
        = run @ CHR ''{'' # r1 @ CHR ''}'' # unpieces r2 rest"
      using t b by simp
    have rhs: "map block_rule (filter kept_block (blocks_of run ((b1, r1) # (b2, r2) # rest)))
        = (if trim run \<noteq> [] \<and> trim r1 \<noteq> []
           then [\<lparr>selector = trim run, styles = parseStyleDeclarations (trim r1)\<rparr>] else [])
          @ map block_rule (filter kept_block (blocks_of r2 rest))"
      using True by (simp add: kept_block_def block_rule_def)
    show ?thesis unfolding lhs rhs P ih ..
  next
    case False
    have d: "dropWhile not_brace (r1 @ b2 # unpieces r2 rest) = b2 # unpieces r2 rest"
      using w(2,3) by (simp add: dropWhile_append2 list_all_iff)
    have "rule_exec (run @ b1 # r1 @ b2 # unpieces r2 rest)
        = rule_exec (r1 @ b2 # unpieces r2 rest)"
      using 1(3) w(1) by (rule rule_exec_skip) (use False d in auto)
    then have s1: "parseCSS (run @ b1 # r1 @ b2 # unpieces r2 rest)
        = parseCSS (r1 @ b2 # unpieces r2 rest)"
      by (rule parseCSS_cong)
    have s2: "r1 @ b2 # unpieces r2 rest = unpieces r1 ((b2, r2) # rest)"
      by (simp add: unpieces_def)
    have s3: "parseCSS (unpieces r1 ((b2, r2) # rest))
        = map block_rule (filter kept_block (blocks_of r1 ((b2, r2) # rest)))"
      using False w(2) by (rule 1(2)) (use w0 w5 in simp)
    have rhs: "blocks_of run ((b1, r1) # (b2, r2) # rest) = blocks_of r1 ((b2, r2) # rest)"
      using False by auto
    show ?thesis unfolding t rhs s1 unfolding s2 s3 ..
  qed
next
  case (2 run p)
  obtain b r where p: "p = (b, r)" by (cases p)
  from 2(2) have w: "\<not> not_brace b" "list_all not_brace r" by (simp_all add: p wf_piece_def)
  have "rule_exec (run @ b # r) = rule_exec r"
    using 2(1) w(1) by (rule rule_exec_skip) (simp add: dropWhile_all w(2))
  also have "\<dots> = None" using w(2) by (rule rule_exec_run)
  finally have "parseCSS (run @ b # r) = []" by (rule parseCSS_no_match)
  then show ?case by (simp add: unpieces_def p)
next
  case (3 run)
  then have "rule_exec run = None" by (simp add: rule_exec_run)
  then have "parseCSS run = []" by (rule parseCSS_no_match)
  then show ?case by (simp add: unpieces_def)
qed

lemma parseCSS_text_rules: "parseCSS s = text_rules s"
proof -
  obtain run ps where p: "pieces s = (run, ps)" by (cases "pieces s")
  from pieces_ok [OF p] have ok: "list_all not_brace run" "list_all wf_piece ps"
    "unpieces run ps = s" by simp_all
  from parseCSS_pieces [OF ok(1,2)] show ?thesis
    by (simp add: ok(3) text_rules_def css_blocks_def p)
qed

lemma parseCSS_blocks_rest:
  "list_all wf_block blocks \<Longrightarrow>
     parseCSS (concat (map block_text blocks) @ rest) = map block_rule blocks @ parseCSS rest"
proof (induction blocks)
  case Nil
  then show ?case by simp
next
  case (Cons b blocks)
  obtain g1 g2 where b: "b = (g1, g2)" by (cases b)
  from Cons.prems have wfb: "wf_block b" and rest: "list_all wf_block blocks"
    by simp_all
  from wfb have wf: "list_all not_brace g1" "list_all not_brace g2"
    "trim g1 \<noteq> []" "trim g2 \<noteq> []"
    by (simp_all add: wf_block_def b)
  from wf(3) have ne: "g1 \<noteq> []" using trim_Nil by auto
  let ?rest = "concat (map block_text blocks) @ rest"
  have t: "concat (map block_text (b # blocks)) @ rest = g1 @ CHR ''{'' # g2 @ CHR ''}'' # ?rest"
    by (simp add: block_text_def b)
  have "parseCSS (g1 @ CHR ''{'' # g2 @ CHR ''}'' # ?rest) = block_rule b # parseCSS ?rest"
    by (subst parseCSS.simps) (simp add: rule_exec_block [OF ne wf(1,2)] wf block_rule_def b)
  then show ?case unfolding t using Cons.IH [OF rest] by simp
qed

lemma parseCSS_blocks_tail:
  assumes "list_all wf_block blocks" "list_all not_brace rest"
  shows "parseCSS (concat (map block_text blocks) @ rest) = map block_rule blocks"
proof -
  have "parseCSS rest = []" using assms(2) by (intro parseCSS_no_match rule_exec_run)
  with parseCSS_blocks_rest [OF assms(1), of rest] show ?thesis by simp
qed

section \<open>The style elements and the tree without them\<close>

lemma clean_not_detached: "clean c \<Longrightarrow> \<not> is_detached c"
  by (cases c) simp_all

lemma clean_sweep: "clean n \<Longrightarrow> sweep n = n"
proof (induction n)
  case (Element tag as cs)
  from Element.prems have c: "\<And>x. x \<in> set cs \<Longrightarrow> clean x" by (simp add: list_all_iff)
  have "filter (\<lambda>c. \<not> is_detached c) cs = cs"
    by (rule filter_True) (simp add: c clean_not_detached)
  moreover have "map sweep cs = cs"
    by (rule map_idI) (simp add: c Element.IH)
  ultimately show ?case by simp
qed simp_all

lemma subtree_at_child:
  "i < length cs \<Longrightarrow> subtree_at (Element tag as cs) (i # p) = subtree_at (cs ! i) p"
  by simp

lemma subtree_elements:
  "clean t \<Longrightarrow> map (subtree_at t) (element_paths t) = map Some (elements_of t)"
proof (induction t rule: element_paths.induct)
  case (1 tag as cs)
  from 1(2) have c: "\<And>i. i < length cs \<Longrightarrow> clean (cs ! i)" by (simp add: list_all_length)
  have "map (subtree_at (Element tag as cs)) (map ((#) i) (element_paths (cs ! i)))
      = map Some (elements_of (cs ! i))" if "i < length cs" for i
    using 1(1) [of i] that c by (simp add: comp_def)
  then have "map (\<lambda>i. map (subtree_at (Element tag as cs)) (map ((#) i) (element_paths (cs ! i)))) [0..<length cs]
      = map (\<lambda>i. map Some (elements_of (cs ! i))) [0..<length cs]"
    by (intro map_cong) simp_all
  also have "\<dots> = map (\<lambda>c. map Some (elements_of c)) cs"
    by (intro nth_equalityI) simp_all
  finally have "concat (map (\<lambda>i. map (subtree_at (Element tag as cs)) (map ((#) i) (element_paths (cs ! i)))) [0..<length cs])
      = map Some (concat (map elements_of cs))"
    by (simp add: map_concat comp_def)
  then show ?case by (simp add: map_concat comp_def)
qed simp_all

lemma subtree_descendants:
  "clean t \<Longrightarrow> map (subtree_at t) (descendant_paths t) = map Some (descendants t)"
proof (cases t)
  case (Element tag as cs)
  assume "clean t"
  then have "map (subtree_at t) (element_paths t) = map Some (elements_of t)"
    by (rule subtree_elements)
  then show ?thesis unfolding Element descendant_paths_Element by simp
qed (simp_all add: descendant_paths_def)

lemma elements_of_clean: "clean t \<Longrightarrow> n \<in> set (elements_of t) \<Longrightarrow> clean n"
proof (induction t)
  case (Element tag as cs)
  from Element.prems(1) have c: "\<And>x. x \<in> set cs \<Longrightarrow> clean x" by (simp add: list_all_iff)
  from Element.prems(2) consider "n = Element tag as cs" | x where "x \<in> set cs" "n \<in> set (elements_of x)"
    by auto
  then show ?case
  proof cases
    case 1
    with Element.prems(1) show ?thesis by simp
  next
    case 2
    with Element.IH c show ?thesis by blast
  qed
qed simp_all

lemma descendants_clean: "clean t \<Longrightarrow> n \<in> set (descendants t) \<Longrightarrow> clean n"
proof (cases t)
  case (Element tag as cs)
  assume c: "clean t" and n: "n \<in> set (descendants t)"
  from n obtain x where "x \<in> set cs" "n \<in> set (elements_of x)" unfolding Element by auto
  moreover from c have "\<And>x. x \<in> set cs \<Longrightarrow> clean x" unfolding Element by (simp add: list_all_iff)
  ultimately show ?thesis using elements_of_clean by blast
qed simp_all

lemma is_style_tag:
  "is_style n \<longleftrightarrow> (case Some n of Some (Element tag as cs) \<Rightarrow> Some tag | _ \<Rightarrow> None) = Some ''style''"
  by (cases n) auto

lemma texts_of_nodes:
  "map f ps = map Some ns \<Longrightarrow>
   concat (map (\<lambda>p. case f p of Some el \<Rightarrow> [g el] | None \<Rightarrow> [])
            (filter (\<lambda>p. (case f p of Some (Element tag as cs) \<Rightarrow> Some tag | _ \<Rightarrow> None) = Some ''style'') ps))
     = map g (filter is_style ns)"
proof (induction ps arbitrary: ns)
  case Nil
  then show ?case by simp
next
  case (Cons p ps)
  from Cons.prems obtain n ns' where ns: "ns = n # ns'" and p: "f p = Some n"
    and rest: "map f ps = map Some ns'"
    by (cases ns) auto
  from Cons.IH [OF rest] show ?case
    unfolding ns by (simp add: p is_style_tag)
qed

lemma style_texts_nodes:
  assumes "clean svg"
  shows "style_texts env svg = map (style_text env) (style_nodes svg)"
proof -
  have "style_texts env svg = map (css_text env) (style_nodes svg)"
    unfolding style_texts_def style_elements_def tag_at_def style_nodes_def
    by (rule texts_of_nodes) (rule subtree_descendants [OF assms])
  also have "\<dots> = map (style_text env) (style_nodes svg)"
  proof (rule map_cong [OF refl])
    fix n
    assume "n \<in> set (style_nodes svg)"
    then have "n \<in> set (descendants svg)" by (simp add: style_nodes_def)
    with assms have "clean n" by (rule descendants_clean)
    then show "css_text env n = style_text env n"
      by (simp add: css_text_def style_text_def clean_sweep)
  qed
  finally show ?thesis .
qed

lemma extraction_text_rules:
  assumes "clean svg"
  shows "snd (extraction env svg)
     = concat (map (\<lambda>styleEl. text_rules (style_text env styleEl)) (style_nodes svg))"
proof -
  have "snd (extraction env svg) = concat (map parseCSS (style_texts env svg))"
    by (rule extraction_rules)
  also have "\<dots> = concat (map parseCSS (map (style_text env) (style_nodes svg)))"
    by (simp only: style_texts_nodes [OF assms])
  also have "\<dots> = concat (map (\<lambda>styleEl. text_rules (style_text env styleEl)) (style_nodes svg))"
    by (simp add: comp_def parseCSS_text_rules)
  finally show ?thesis .
qed

lemma modify_at_unresolved: "subtree_at t p = None \<Longrightarrow> modify_at f t p = t"
proof (induction t p rule: subtree_at.induct)
  case (2 tag as cs i p)
  then show ?case by (cases "i < length cs") simp_all
qed simp_all

lemma extract_styles_tree:
  "fst (extract_styles env ps (t, rules)) = foldl (\<lambda>t p. modify_at Detached t p) t ps"
proof (induction ps arbitrary: t rules)
  case Nil
  then show ?case by simp
next
  case (Cons p ps)
  show ?case
  proof (cases "subtree_at t p")
    case None
    then show ?thesis by (simp add: Cons modify_at_unresolved)
  next
    case (Some el)
    then show ?thesis by (simp add: Cons)
  qed
qed

lemma detach_in_child:
  "i < length cs \<Longrightarrow>
   foldl (\<lambda>t p. modify_at Detached t p) (Element tag as cs) (map ((#) i) qs)
     = Element tag as (cs[i := foldl (\<lambda>t p. modify_at Detached t p) (cs ! i) qs])"
  by (induction qs arbitrary: cs) simp_all

lemma detach_in_children:
  "k \<le> length cs \<Longrightarrow>
   foldl (\<lambda>t p. modify_at Detached t p) (Element tag as cs)
       (concat (map (\<lambda>i. map ((#) i) (g i)) [0..<k]))
     = Element tag as
         (map (\<lambda>i. if i < k then foldl (\<lambda>t p. modify_at Detached t p) (cs ! i) (g i) else cs ! i)
            [0..<length cs])"
proof (induction k)
  case 0
  then show ?case by (simp add: map_nth)
next
  case (Suc k)
  let ?D = "\<lambda>t ps. foldl (\<lambda>t p. modify_at Detached t p) t ps"
  let ?cs' = "map (\<lambda>i. if i < k then ?D (cs ! i) (g i) else cs ! i) [0..<length cs]"
  from Suc.prems have k: "k < length cs" by simp
  have ih: "?D (Element tag as cs) (concat (map (\<lambda>i. map ((#) i) (g i)) [0..<k]))
      = Element tag as ?cs'"
    using Suc.IH k by simp
  have "?D (Element tag as cs) (concat (map (\<lambda>i. map ((#) i) (g i)) [0..<Suc k]))
      = ?D (Element tag as ?cs') (map ((#) k) (g k))"
    by (simp add: ih)
  also have "\<dots> = Element tag as (?cs'[k := ?D (?cs' ! k) (g k)])"
    by (rule detach_in_child) (simp add: k)
  also have "?cs'[k := ?D (?cs' ! k) (g k)]
      = map (\<lambda>i. if i < Suc k then ?D (cs ! i) (g i) else cs ! i) [0..<length cs]"
    using k by (intro nth_equalityI) (auto simp: nth_list_update less_Suc_eq)
  finally show ?case .
qed

lemma detach_all_children:
  "foldl (\<lambda>t p. modify_at Detached t p) (Element tag as cs)
       (concat (map (\<lambda>i. map ((#) i) (g i)) [0..<length cs]))
     = Element tag as
         (map (\<lambda>i. foldl (\<lambda>t p. modify_at Detached t p) (cs ! i) (g i)) [0..<length cs])"
  using detach_in_children [of "length cs" cs tag as g] by simp

lemma detach_Detached:
  "foldl (\<lambda>t p. modify_at Detached t p) (Detached n) ps
     = Detached (foldl (\<lambda>t p. modify_at Detached t p) n ps)"
  by (induction ps arbitrary: n) simp_all

lemma style_paths_Element:
  "filter (\<lambda>p. tag_at (Element tag as cs) p = Some ''style'')
       (concat (map (\<lambda>i. map ((#) i) (element_paths (cs ! i))) [0..<length cs]))
     = concat (map (\<lambda>i. map ((#) i)
         (filter (\<lambda>p. tag_at (cs ! i) p = Some ''style'') (element_paths (cs ! i)))) [0..<length cs])"
proof -
  have "filter (\<lambda>p. tag_at (Element tag as cs) p = Some ''style'') (map ((#) i) (element_paths (cs ! i)))
      = map ((#) i) (filter (\<lambda>p. tag_at (cs ! i) p = Some ''style'') (element_paths (cs ! i)))"
    if "i < length cs" for i
    using that by (simp add: filter_map comp_def tag_at_child)
  then have eq: "map (\<lambda>i. filter (\<lambda>p. tag_at (Element tag as cs) p = Some ''style'')
                 (map ((#) i) (element_paths (cs ! i)))) [0..<length cs]
      = map (\<lambda>i. map ((#) i)
         (filter (\<lambda>p. tag_at (cs ! i) p = Some ''style'') (element_paths (cs ! i)))) [0..<length cs]"
    by (intro map_cong) simp_all
  have "filter (\<lambda>p. tag_at (Element tag as cs) p = Some ''style'')
       (concat (map (\<lambda>i. map ((#) i) (element_paths (cs ! i))) [0..<length cs]))
      = concat (map (\<lambda>i. filter (\<lambda>p. tag_at (Element tag as cs) p = Some ''style'')
                 (map ((#) i) (element_paths (cs ! i)))) [0..<length cs])"
    by (simp add: filter_concat comp_def)
  then show ?thesis by (simp only: eq)
qed

lemma sweep_children:
  assumes "\<And>c. c \<in> set cs \<Longrightarrow> is_detached (h c) = is_style c"
    and "\<And>c. c \<in> set cs \<Longrightarrow> \<not> is_style c \<Longrightarrow> sweep (h c) = without_styles c"
  shows "map sweep (filter (\<lambda>c. \<not> is_detached c) (map h cs))
     = map without_styles (filter (\<lambda>c. \<not> is_style c) cs)"
  using assms by (induction cs) simp_all

lemma detach_styles_below:
  assumes "\<And>c. c \<in> set cs \<Longrightarrow> is_detached
         (foldl (\<lambda>t p. modify_at Detached t p) c
            (filter (\<lambda>p. tag_at c p = Some ''style'') (element_paths c))) = is_style c"
    and "\<And>c. c \<in> set cs \<Longrightarrow> \<not> is_style c \<Longrightarrow>
       sweep (foldl (\<lambda>t p. modify_at Detached t p) c
            (filter (\<lambda>p. tag_at c p = Some ''style'') (element_paths c))) = without_styles c"
  shows "sweep (foldl (\<lambda>t p. modify_at Detached t p) (Element tag as cs)
           (style_elements (Element tag as cs)))
     = without_styles (Element tag as cs)"
proof -
  let ?h = "\<lambda>c. foldl (\<lambda>t p. modify_at Detached t p) c
            (filter (\<lambda>p. tag_at c p = Some ''style'') (element_paths c))"
  have "foldl (\<lambda>t p. modify_at Detached t p) (Element tag as cs)
           (style_elements (Element tag as cs))
      = Element tag as (map (\<lambda>i. ?h (cs ! i)) [0..<length cs])"
    unfolding style_elements_def descendant_paths_Element style_paths_Element
    by (rule detach_all_children)
  also have "map (\<lambda>i. ?h (cs ! i)) [0..<length cs] = map ?h cs"
    by (intro nth_equalityI) simp_all
  finally have "sweep (foldl (\<lambda>t p. modify_at Detached t p) (Element tag as cs)
           (style_elements (Element tag as cs)))
      = Element tag as (map sweep (filter (\<lambda>c. \<not> is_detached c) (map ?h cs)))"
    by simp
  also have "map sweep (filter (\<lambda>c. \<not> is_detached c) (map ?h cs))
      = map without_styles (filter (\<lambda>c. \<not> is_style c) cs)"
    using assms by (rule sweep_children)
  finally show ?thesis by simp
qed

lemma detach_styles:
  "clean c \<Longrightarrow>
   is_detached (foldl (\<lambda>t p. modify_at Detached t p) c
      (filter (\<lambda>p. tag_at c p = Some ''style'') (element_paths c))) = is_style c
   \<and> (\<not> is_style c \<longrightarrow>
        sweep (foldl (\<lambda>t p. modify_at Detached t p) c
          (filter (\<lambda>p. tag_at c p = Some ''style'') (element_paths c))) = without_styles c)"
proof (induction c)
  case (Element tag as cs)
  from Element.prems have c: "\<And>x. x \<in> set cs \<Longrightarrow> clean x" by (simp add: list_all_iff)
  let ?below = "concat (map (\<lambda>i. map ((#) i) (element_paths (cs ! i))) [0..<length cs])"
  have paths: "filter (\<lambda>p. tag_at (Element tag as cs) p = Some ''style'') (element_paths (Element tag as cs))
      = (if tag = ''style'' then [[]] else []) @ style_elements (Element tag as cs)"
    by (simp add: style_elements_def descendant_paths_Element tag_at_def)
  show ?case
  proof (cases "tag = ''style''")
    case True
    then show ?thesis
      unfolding paths by (simp add: detach_Detached)
  next
    case False
    have "sweep (foldl (\<lambda>t p. modify_at Detached t p) (Element tag as cs)
           (style_elements (Element tag as cs)))
        = without_styles (Element tag as cs)"
      by (rule detach_styles_below) (use Element.IH c in blast)+
    moreover have "\<not> is_detached (foldl (\<lambda>t p. modify_at Detached t p) (Element tag as cs)
           (style_elements (Element tag as cs)))"
      unfolding style_elements_def descendant_paths_Element style_paths_Element detach_all_children
      by simp
    ultimately show ?thesis unfolding paths using False by simp
  qed
qed simp_all

lemma stripped_without_styles:
  assumes "clean svg"
  shows "stripped env svg = without_styles svg"
proof (cases svg)
  case (Element tag as cs)
  from assms have c: "\<And>x. x \<in> set cs \<Longrightarrow> clean x" unfolding Element by (simp add: list_all_iff)
  have "sweep (foldl (\<lambda>t p. modify_at Detached t p) (Element tag as cs)
           (style_elements (Element tag as cs)))
      = without_styles (Element tag as cs)"
    by (rule detach_styles_below) (use detach_styles c in blast)+
  then show ?thesis
    by (simp add: stripped_def extraction_def extract_styles_tree Element)
next
  case (Text s)
  then show ?thesis
    by (simp add: stripped_def extraction_def extract_styles_tree style_elements_def descendant_paths_def)
next
  case (Comment s)
  then show ?thesis
    by (simp add: stripped_def extraction_def extract_styles_tree style_elements_def descendant_paths_def)
next
  case (Detached n)
  with assms show ?thesis by simp
qed

section \<open>The passes as a sequence of operations\<close>

lemma perform_Nil: "perform [] t = t"
  by (simp add: perform_def)

lemma perform_append: "perform (a @ b) t = perform b (perform a t)"
  by (simp add: perform_def)

lemma perform_Cons: "perform (x # xs) t = perform xs (perform_op t x)"
  by (simp add: perform_def)

lemma apply_to_elements_perform:
  "apply_to_elements (styles rule) ps (t, n) = (perform (map (Merge rule) ps) t, n + length ps)"
  by (induction ps arbitrary: t n) (simp_all add: perform_Nil perform_Cons)

lemma structural_pass_perform:
  "structural_pass env ctx rules (t, c, n) = Inr (t', c', n') \<Longrightarrow>
     t' = perform (structural_trace env ctx rules t) t
     \<and> n' = n + length (structural_trace env ctx rules t)
     \<and> list_all is_merge (structural_trace env ctx rules t)
     \<and> c' = c + length rules"
proof (induction rules arbitrary: t c n)
  case Nil
  then show ?case by (simp add: perform_Nil)
next
  case (Cons rule rules)
  from Cons.prems obtain matches where m: "selector_matcher env (selector rule) = Some matches"
    by (cases "selector_matcher env (selector rule)") (simp_all add: querySelectorAll_def)
  let ?els = "filter (matches ctx t) (descendant_paths t)"
  let ?t1 = "perform (map (Merge rule) ?els) t"
  have q: "querySelectorAll env ctx t (selector rule) = Inr ?els"
    by (simp add: querySelectorAll_def m)
  from Cons.prems have "structural_pass env ctx rules (?t1, c + 1, n + length ?els) = Inr (t', c', n')"
    by (simp add: q apply_to_elements_perform)
  from Cons.IH [OF this]
  have ih: "t' = perform (structural_trace env ctx rules ?t1) ?t1"
    "n' = n + length ?els + length (structural_trace env ctx rules ?t1)"
    "list_all is_merge (structural_trace env ctx rules ?t1)"
    "c' = c + 1 + length rules"
    by simp_all
  have tr: "structural_trace env ctx (rule # rules) t
      = map (Merge rule) ?els @ structural_trace env ctx rules ?t1"
    by (simp add: m)
  show ?case unfolding tr using ih by (auto simp: perform_append list_all_iff)
qed

lemma apply_class_rules_perform:
  "apply_class_rules c p rules (t, n)
     = (perform (map (\<lambda>rule. Merge rule p) (filter (names_class c) rules)) t,
        n + length (filter (names_class c) rules))"
  by (induction rules arbitrary: t n) (simp_all add: perform_Nil perform_Cons)

lemma class_step_perform:
  "class_step rules p (t, n)
     = (perform (class_trace_at rules t p) t,
        n + length (filter is_merge (class_trace_at rules t p)))"
proof (cases "attribute_at t p ''class''")
  case None
  then show ?thesis by (simp add: class_step_def class_trace_at_def perform_Nil)
next
  case (Some c)
  show ?thesis
  proof (cases "c = []")
    case True
    then show ?thesis using Some by (simp add: class_step_def class_trace_at_def perform_Nil)
  next
    case False
    have f: "filter is_merge (map (\<lambda>rule. Merge rule p) xs) = map (\<lambda>rule. Merge rule p) xs" for xs
      by (induction xs) simp_all
    show ?thesis using Some False
      by (simp add: class_step_def class_trace_at_def apply_class_rules_perform perform_append
          perform_Cons perform_Nil f)
  qed
qed

lemma class_after_perform_op:
  "attribute_at (perform_op t x) q ''class''
     = (if x = RemoveClass q then None else attribute_at t q ''class'')"
  by (cases x) (auto simp: class_after_style class_after_remove)

lemma class_after_perform:
  "RemoveClass q \<notin> set ops \<Longrightarrow> attribute_at (perform ops t) q ''class'' = attribute_at t q ''class''"
  by (induction ops arbitrary: t) (auto simp: perform_Nil perform_Cons class_after_perform_op)

lemma class_trace_at_paths: "x \<in> set (class_trace_at rules t p) \<Longrightarrow> op_path x = p"
  by (auto simp: class_trace_at_def split: option.splits if_splits)

lemma class_trace_at_cong:
  "attribute_at t' p ''class'' = attribute_at t p ''class''
   \<Longrightarrow> class_trace_at rules t' p = class_trace_at rules t p"
  by (simp add: class_trace_at_def)

lemma class_pass_perform:
  assumes "distinct ps" "\<And>q. q \<in> set ps \<Longrightarrow> attribute_at t' q ''class'' = attribute_at t q ''class''"
  shows "class_pass rules ps (t', n)
     = (perform (concat (map (class_trace_at rules t) ps)) t',
        n + length (filter is_merge (concat (map (class_trace_at rules t) ps))))"
  using assms
proof (induction ps arbitrary: t' n)
  case Nil
  then show ?case by (simp add: perform_Nil)
next
  case (Cons p ps)
  have same: "class_trace_at rules t' p = class_trace_at rules t p"
    by (rule class_trace_at_cong) (rule Cons.prems(2), simp)
  let ?t1 = "perform (class_trace_at rules t p) t'"
  have s: "class_step rules p (t', n)
      = (?t1, n + length (filter is_merge (class_trace_at rules t p)))"
    by (simp add: class_step_perform same)
  have keep: "attribute_at ?t1 q ''class'' = attribute_at t q ''class''" if "q \<in> set ps" for q
  proof -
    from that Cons.prems(1) have "q \<noteq> p" by auto
    then have "RemoveClass q \<notin> set (class_trace_at rules t p)"
      using class_trace_at_paths [of "RemoveClass q" rules t p] by auto
    then have "attribute_at ?t1 q ''class'' = attribute_at t' q ''class''"
      by (rule class_after_perform)
    with Cons.prems(2) [of q] that show ?thesis by simp
  qed
  from Cons.prems(1) have d: "distinct ps" by simp
  note ih = Cons.IH [OF d keep, of "n + length (filter is_merge (class_trace_at rules t p))"]
  show ?case by (simp add: s ih perform_append)
qed

lemma perform_paths: "element_paths (perform ops t) = element_paths t"
proof (induction ops arbitrary: t)
  case Nil
  then show ?case by (simp add: perform_Nil)
next
  case (Cons x ops)
  have "element_paths (perform_op t x) = element_paths t"
    by (cases x) (simp_all add: applyStylesToElement_map_attrs removeAttribute_map_attrs
        element_paths_modify)
  with Cons show ?case by (simp add: perform_Cons)
qed

lemma structural_trace_paths:
  "x \<in> set (structural_trace env ctx rules t) \<Longrightarrow> op_path x \<in> set (descendant_paths t)"
proof (induction rules arbitrary: t)
  case Nil
  then show ?case by simp
next
  case (Cons rule rules)
  show ?case
  proof (cases "selector_matcher env (selector rule)")
    case None
    with Cons.prems show ?thesis by simp
  next
    case (Some matches)
    let ?els = "filter (matches ctx t) (descendant_paths t)"
    let ?t1 = "perform (map (Merge rule) ?els) t"
    from Cons.prems Some
    consider "x \<in> set (map (Merge rule) ?els)" | "x \<in> set (structural_trace env ctx rules ?t1)"
      by auto
    then show ?thesis
    proof cases
      case 1
      then show ?thesis by auto
    next
      case 2
      from Cons.IH [OF this] show ?thesis by (simp add: descendant_paths_def perform_paths)
    qed
  qed
qed

lemma class_trace_paths:
  "x \<in> set (class_trace rules t) \<Longrightarrow> op_path x \<in> set (descendant_paths t)"
proof -
  assume "x \<in> set (class_trace rules t)"
  then obtain p where p: "p \<in> set (class_elements t)" and x: "x \<in> set (class_trace_at rules t p)"
    by (auto simp: class_trace_def)
  from x have "op_path x = p" by (rule class_trace_at_paths)
  with p show ?thesis by (simp add: class_elements_def)
qed

lemma counters_trace:
  assumes "convertEmbeddedCSSToInline env ctx svg = Inr (out, res)"
  shows "out = perform (conversion_trace env ctx (cssRules res) (stripped env svg)) (stripped env svg)"
    and "processedElements res
           = length (filter is_merge (conversion_trace env ctx (cssRules res) (stripped env svg)))"
    and "list_all (\<lambda>x. op_path x \<in> set (descendant_paths (stripped env svg)))
           (conversion_trace env ctx (cssRules res) (stripped env svg))"
proof -
  let ?s0 = "stripped env svg"
  let ?rules = "cssRules res"
  from assms obtain svg2 n where
    sp: "structural_pass env ctx ?rules (?s0, 0, 0) = Inr (svg2, length ?rules, n)"
    and out: "out = fst (class_pass ?rules (class_elements svg2) (svg2, n))"
    and pe: "processedElements res = snd (class_pass ?rules (class_elements svg2) (svg2, n))"
    by (rule convert_success)
  let ?st = "structural_trace env ctx ?rules ?s0"
  from structural_pass_perform [OF sp]
  have r: "svg2 = perform ?st ?s0" "n = length ?st" "list_all is_merge ?st"
    by simp_all
  have d: "distinct (class_elements svg2)"
    by (simp add: class_elements_def descendant_paths_def distinct_element_paths)
  have cp: "class_pass ?rules (class_elements svg2) (svg2, n)
      = (perform (class_trace ?rules svg2) svg2,
         n + length (filter is_merge (class_trace ?rules svg2)))"
    unfolding class_trace_def by (rule class_pass_perform [OF d]) simp
  have fm: "filter is_merge ?st = ?st" using r(3) by (simp add: list_all_iff)
  have ct: "conversion_trace env ctx ?rules ?s0 = ?st @ class_trace ?rules svg2"
    unfolding conversion_trace_def r(1) [symmetric] ..
  have "out = perform (class_trace ?rules svg2) svg2"
    unfolding out cp by simp
  also have "\<dots> = perform (?st @ class_trace ?rules svg2) ?s0"
    unfolding perform_append r(1) [symmetric] ..
  finally show "out = perform (conversion_trace env ctx ?rules ?s0) ?s0"
    unfolding ct .
  have "processedElements res = n + length (filter is_merge (class_trace ?rules svg2))"
    unfolding pe cp by simp
  also have "\<dots> = length (filter is_merge (?st @ class_trace ?rules svg2))"
    unfolding filter_append fm length_append r(2) ..
  finally show "processedElements res
      = length (filter is_merge (conversion_trace env ctx ?rules ?s0))"
    unfolding ct .
  have "op_path x \<in> set (descendant_paths ?s0)"
    if "x \<in> set (conversion_trace env ctx ?rules ?s0)" for x
  proof -
    from that consider "x \<in> set ?st" | "x \<in> set (class_trace ?rules svg2)"
      unfolding ct by auto
    then show ?thesis
    proof cases
      case 1
      then show ?thesis by (rule structural_trace_paths)
    next
      case 2
      from class_trace_paths [OF this] show ?thesis
        by (simp add: descendant_paths_def r(1) perform_paths)
    qed
  qed
  then show "list_all (\<lambda>x. op_path x \<in> set (descendant_paths ?s0))
           (conversion_trace env ctx ?rules ?s0)"
    by (simp add: list_all_iff)
qed

section \<open>The root element, repeated merges and the lost property\<close>





lemma merge_once:
  assumes "list_all wf_entry r" "distinct (map fst r)"
  shows "getAttribute (applyStylesToElement (Element tag as cs) r) ''style''
           = Some (style_string (spread2 (parseInlineStyle (existing_style (Element tag as cs))) r))"
    and "distinct (map fst (spread2 (parseInlineStyle (existing_style (Element tag as cs))) r))"
    and "map_of (spread2 (parseInlineStyle (existing_style (Element tag as cs))) r)
           = map_of (parseInlineStyle (existing_style (Element tag as cs))) ++ map_of r"
    and "list_all wf_entry (spread2 (parseInlineStyle (existing_style (Element tag as cs))) r)"
proof -
  let ?old = "parseInlineStyle (existing_style (Element tag as cs))"
  show "getAttribute (applyStylesToElement (Element tag as cs) r) ''style''
           = Some (style_string (spread2 ?old r))"
    by (simp add: applyStylesToElement_Element attr_get_attr_set)
  show "distinct (map fst (spread2 ?old r))" by (rule distinct_spread2)
  show "map_of (spread2 ?old r) = map_of ?old ++ map_of r"
    by (simp add: map_of_spread2 map_of_rev_distinct distinct_parseInlineStyle assms(2))
  show "list_all wf_entry (spread2 ?old r)"
    using set_spread2 [of ?old r] wf_parseInlineStyle assms(1)
    by (auto simp: list_all_iff)
qed

lemma style_string_reparsed:
  assumes "list_all wf_entry m" "distinct (map fst m)"
  shows "map_of (parseInlineStyle (style_string m)) = map_of m"
  using parseInlineStyle_style_string [of m] assms
  by (simp add: list_all_iff map_of_rev_distinct)

lemma merge_twice:
  assumes "list_all wf_entry r1" "distinct (map fst r1)" "list_all wf_entry r2" "distinct (map fst r2)"
  shows "\<exists>m. getAttribute (applyStylesToElement (applyStylesToElement (Element tag as cs) r1) r2) ''style''
              = Some (style_string m)
           \<and> distinct (map fst m)
           \<and> map_of m = map_of (parseInlineStyle (existing_style (Element tag as cs)))
                 ++ map_of r1 ++ map_of r2"
proof -
  let ?old = "parseInlineStyle (existing_style (Element tag as cs))"
  let ?m1 = "spread2 ?old r1"
  let ?as1 = "attr_set as ''style'' (style_string ?m1)"
  have el: "applyStylesToElement (Element tag as cs) r1 = Element tag ?as1 cs"
    by (simp add: applyStylesToElement_Element)
  have ex: "existing_style (Element tag ?as1 cs) = style_string ?m1"
    by (rule existing_style_setAttribute)
  note one = merge_once [OF assms(1,2), of tag as cs]
  note two = merge_once [OF assms(3,4), of tag ?as1 cs]
  have rt: "map_of (parseInlineStyle (style_string ?m1)) = map_of ?m1"
    using one(4) one(2) by (rule style_string_reparsed)
  let ?m2 = "spread2 (parseInlineStyle (style_string ?m1)) r2"
  have "getAttribute (applyStylesToElement (applyStylesToElement (Element tag as cs) r1) r2) ''style''
      = Some (style_string ?m2)"
    using two(1) by (simp only: el ex)
  moreover have "distinct (map fst ?m2)" by (rule distinct_spread2)
  moreover have "map_of ?m2 = map_of ?old ++ map_of r1 ++ map_of r2"
    using two(3) by (simp only: ex rt one(3))
  ultimately show ?thesis by blast
qed

lemma map_of_filter_other:
  "map_of (filter (\<lambda>e. fst e \<noteq> k) ys) = map_of ys |` (- {k})"
  by (induction ys) (auto simp: restrict_map_def fun_eq_iff)

lemma assigned_entries:
  "rev (map fragment_entry (filter assigned_fragment fs))
     = filter (\<lambda>e. fst e \<noteq> ''__proto__'') (rev (map fragment_entry (filter kept_fragment fs)))"
  by (induction fs) (auto simp: assigned_fragment_def)

lemma declarations_without_proto:
  "map_of (parseStyleDeclarations d) = spec_declarations d |` (- {''__proto__''})"
  by (simp add: parseStyleDeclarations_def map_of_declarations_fold assigned_entries
      map_of_filter_other spec_declarations_def)

section \<open>The claims\<close>

text \<open>
  Claim C8: for every input string, \<open>parseStyleDeclarations\<close> and \<open>parseInlineStyle\<close>
  return equal property maps (the same entries in the same order).
\<close>

theorem parsers_agree: "parseInlineStyle s = parseStyleDeclarations s"
proof (cases s)
  case Nil
  then show ?thesis
    by (simp add: parseInlineStyle_def parseStyleDeclarations_def declaration_step_def)
next
  case (Cons c cs)
  then show ?thesis
    by (simp add: parseInlineStyle_def parseStyleDeclarations_def inline_step_eq)
qed

text \<open>
  Claim C3: the inline style merge is last-write-wins. For every element and all rule maps
  \<open>r1\<close> and \<open>r2\<close> of the kind the declaration parser returns (names and values trimmed and
  not empty, no \<open>:\<close> or \<open>;\<close> in a name, no \<open>;\<close> in a value, each name once), the style
  attribute written by merging \<open>r1\<close> is the text of a map that is the prior inline style
  overridden by \<open>r1\<close>, and the attribute written by merging \<open>r1\<close> and then \<open>r2\<close> is the text
  of a map that is the prior style overridden by \<open>r1\<close> and then by \<open>r2\<close>: \<open>r2\<close> wins wherever
  both set a property, and a rule wins over the prior value. The text of such a map parses
  back to the map, and every map the parser returns is of this kind. Only the order of the
  calls enters: the merger never sees a selector. Inline style \<open>fill:red\<close> merged with
  \<open>fill:blue\<close> gives \<open>fill:blue\<close>; \<open>x:1\<close> and then \<open>x:2\<close> merged into one element give
  \<open>x:2\<close>.
\<close>

theorem merge_last_write_wins:
  "(list_all wf_entry r1 \<and> distinct (map fst r1) \<and> list_all wf_entry r2 \<and> distinct (map fst r2) \<longrightarrow>
      (\<exists>m. getAttribute (applyStylesToElement (Element tag as cs) r1) ''style'' = Some (style_string m)
           \<and> distinct (map fst m)
           \<and> map_of m = map_of (parseInlineStyle (existing_style (Element tag as cs))) ++ map_of r1)
    \<and> (\<exists>m. getAttribute (applyStylesToElement (applyStylesToElement (Element tag as cs) r1) r2) ''style''
              = Some (style_string m)
           \<and> distinct (map fst m)
           \<and> map_of m = map_of (parseInlineStyle (existing_style (Element tag as cs)))
                 ++ map_of r1 ++ map_of r2)
    \<and> map_of (parseInlineStyle (style_string r1)) = map_of r1)
   \<and> list_all wf_entry (parseStyleDeclarations d) \<and> distinct (map fst (parseStyleDeclarations d))
   \<and> getAttribute (applyStylesToElement (Element ''rect'' [(''style'', ''fill:red'')] [])
          (parseStyleDeclarations ''fill:blue'')) ''style'' = Some ''fill:blue''
   \<and> getAttribute (applyStylesToElement
          (applyStylesToElement (Element ''rect'' [(''class'', ''a'')] []) (parseStyleDeclarations ''x:1''))
          (parseStyleDeclarations ''x:2'')) ''style'' = Some ''x:2''"
proof (intro conjI impI)
  assume a: "list_all wf_entry r1 \<and> distinct (map fst r1) \<and> list_all wf_entry r2 \<and> distinct (map fst r2)"
  then have a1: "list_all wf_entry r1" "distinct (map fst r1)"
    and a2: "list_all wf_entry r2" "distinct (map fst r2)" by simp_all
  show "\<exists>m. getAttribute (applyStylesToElement (Element tag as cs) r1) ''style'' = Some (style_string m)
           \<and> distinct (map fst m)
           \<and> map_of m = map_of (parseInlineStyle (existing_style (Element tag as cs))) ++ map_of r1"
    using merge_once(1,2,3) [OF a1, of tag as cs] by blast
  show "\<exists>m. getAttribute (applyStylesToElement (applyStylesToElement (Element tag as cs) r1) r2) ''style''
              = Some (style_string m)
           \<and> distinct (map fst m)
           \<and> map_of m = map_of (parseInlineStyle (existing_style (Element tag as cs)))
                 ++ map_of r1 ++ map_of r2"
    using a1 a2 by (rule merge_twice)
  show "map_of (parseInlineStyle (style_string r1)) = map_of r1"
    using a1 by (rule style_string_reparsed)
next
  show "list_all wf_entry (parseStyleDeclarations d)"
    using wf_parseStyleDeclarations [of d] by (simp add: list_all_iff)
  show "distinct (map fst (parseStyleDeclarations d))" by (rule distinct_parseStyleDeclarations)
  show "getAttribute (applyStylesToElement (Element ''rect'' [(''style'', ''fill:red'')] [])
          (parseStyleDeclarations ''fill:blue'')) ''style'' = Some ''fill:blue''"
    by code_simp
  show "getAttribute (applyStylesToElement
          (applyStylesToElement (Element ''rect'' [(''class'', ''a'')] []) (parseStyleDeclarations ''x:1''))
          (parseStyleDeclarations ''x:2'')) ''style'' = Some ''x:2''"
    by code_simp
qed

text \<open>
  Two explicit rules merged into an element with an inline style of its own.
\<close>

theorem merge_last_write_wins_witness:
  "getAttribute (applyStylesToElement
       (applyStylesToElement (Element ''rect'' [(''style'', ''x:0; z : 9'')] [])
          [(''x'', ''1''), (''w'', ''5'')])
       [(''y'', ''3''), (''x'', ''2'')]) ''style'' = Some ''x:2;z:9;w:5;y:3''
   \<and> (\<exists>m. getAttribute (applyStylesToElement
              (applyStylesToElement (Element ''rect'' [(''style'', ''x:0; z : 9'')] [])
                 [(''x'', ''1''), (''w'', ''5'')])
              [(''y'', ''3''), (''x'', ''2'')]) ''style'' = Some (style_string m)
          \<and> map_of m ''x'' = Some ''2'' \<and> map_of m ''z'' = Some ''9'' \<and> map_of m ''w'' = Some ''5'')"
proof -
  have h: "list_all wf_entry [(''x'', ''1''), (''w'', ''5'')] \<and> distinct (map fst [(''x'', ''1''), (''w'', ''5'')])
      \<and> list_all wf_entry [(''y'', ''3''), (''x'', ''2'')] \<and> distinct (map fst [(''y'', ''3''), (''x'', ''2'')])"
    by code_simp
  have old: "parseInlineStyle (existing_style (Element ''rect'' [(''style'', ''x:0; z : 9'')] []))
      = [(''x'', ''0''), (''z'', ''9'')]"
    by code_simp
  from merge_last_write_wins [of "[(''x'', ''1''), (''w'', ''5'')]" "[(''y'', ''3''), (''x'', ''2'')]"
      "''rect''" "[(''style'', ''x:0; z : 9'')]" "[]"] h
  obtain m where m: "getAttribute (applyStylesToElement
              (applyStylesToElement (Element ''rect'' [(''style'', ''x:0; z : 9'')] [])
                 [(''x'', ''1''), (''w'', ''5'')])
              [(''y'', ''3''), (''x'', ''2'')]) ''style'' = Some (style_string m)"
    and mm: "map_of m = map_of (parseInlineStyle (existing_style (Element ''rect'' [(''style'', ''x:0; z : 9'')] [])))
                 ++ map_of [(''x'', ''1''), (''w'', ''5'')] ++ map_of [(''y'', ''3''), (''x'', ''2'')]"
    by blast
  have "map_of m ''x'' = Some ''2'' \<and> map_of m ''z'' = Some ''9'' \<and> map_of m ''w'' = Some ''5''"
    unfolding mm old by simp
  with m have 1: "\<exists>m. getAttribute (applyStylesToElement
              (applyStylesToElement (Element ''rect'' [(''style'', ''x:0; z : 9'')] [])
                 [(''x'', ''1''), (''w'', ''5'')])
              [(''y'', ''3''), (''x'', ''2'')]) ''style'' = Some (style_string m)
          \<and> map_of m ''x'' = Some ''2'' \<and> map_of m ''z'' = Some ''9'' \<and> map_of m ''w'' = Some ''5''"
    by blast
  have 2: "getAttribute (applyStylesToElement
       (applyStylesToElement (Element ''rect'' [(''style'', ''x:0; z : 9'')] [])
          [(''x'', ''1''), (''w'', ''5'')])
       [(''y'', ''3''), (''x'', ''2'')]) ''style'' = Some ''x:2;z:9;w:5;y:3''"
    by code_simp
  from 1 2 show ?thesis by simp
qed

text \<open>
  Claim C5: a fragment between semicolons is kept exactly when its first colon is at an
  index greater than zero and the trimmed property and the trimmed value are both
  non-empty. The code runs \<open>styles[property] = value\<close> for exactly these fragments, but
  \<open>styles\<close> is an object literal: for the property \<open>__proto__\<close> the assignment reaches the
  inherited setter, which ignores a string, and no entry is made. The fragment
  \<open>__proto__:red\<close> meets the condition and the parsed map is empty. For every declaration
  text the parsed map is the map of the kept fragments, a later fragment replacing an
  earlier one, without the key \<open>__proto__\<close>; each property occurs once.
\<close>

theorem declarations_proto_lost:
  "kept_fragment ''__proto__:red''
   \<and> spec_declarations ''__proto__:red'' ''__proto__'' = Some ''red''
   \<and> parseStyleDeclarations ''__proto__:red'' = []
   \<and> map_of (parseStyleDeclarations d) = spec_declarations d |` (- {''__proto__''})
   \<and> distinct (map fst (parseStyleDeclarations d))
   \<and> parseStyleDeclarations ''color:red;;invalid;fill:green''
     = [(''color'', ''red''), (''fill'', ''green'')]
   \<and> parseStyleDeclarations ''a:1;b:2;a:3'' = [(''a'', ''3''), (''b'', ''2'')]"
proof (intro conjI)
  show "kept_fragment ''__proto__:red''" by code_simp
  show "spec_declarations ''__proto__:red'' ''__proto__'' = Some ''red''" by code_simp
  show "parseStyleDeclarations ''__proto__:red'' = []" by code_simp
  show "map_of (parseStyleDeclarations d) = spec_declarations d |` (- {''__proto__''})"
    by (rule declarations_without_proto)
  show "distinct (map fst (parseStyleDeclarations d))"
    by (rule distinct_parseStyleDeclarations)
  show "parseStyleDeclarations ''color:red;;invalid;fill:green''
     = [(''color'', ''red''), (''fill'', ''green'')]"
    by code_simp
  show "parseStyleDeclarations ''a:1;b:2;a:3'' = [(''a'', ''3''), (''b'', ''2'')]"
    by code_simp
qed

text \<open>
  Claim C9, as stated: the style attribute written by the merger lists the properties of
  the prior inline style in their order and then the new properties in the order of the
  incoming map. It fails for a property name that is an array index: prior style \<open>a:1\<close>
  merged with the declaration \<open>0:x\<close> is written as \<open>0:x;a:1\<close>, not \<open>a:1;0:x\<close>.
\<close>

theorem merged_style_text_counterexample:
  "getAttribute (applyStylesToElement (Element ''rect'' [(''style'', ''a:1'')] [])
       (parseStyleDeclarations ''0:x'')) ''style'' = Some ''0:x;a:1''
   \<and> join '';'' (map render_entry
         (spec_merged_entries (parseInlineStyle (existing_style (Element ''rect'' [(''style'', ''a:1'')] [])))
            (parseStyleDeclarations ''0:x''))) = ''a:1;0:x''"
  by code_simp

text \<open>
  Claim C9, amended: when no property name of the prior inline style or of the incoming
  map is an array index, the style attribute written by the merger is the \<open>prop:value\<close>
  pairs joined by \<open>;\<close>, the prior properties in their order (with the incoming value
  where the incoming map sets them), then the new properties in the order of the incoming
  map.
\<close>

theorem merged_style_text:
  assumes "list_all (\<lambda>k. \<not> is_array_index k)
             (map fst (parseInlineStyle (existing_style (Element tag as cs)))
              @ map fst (parseStyleDeclarations d))"
  shows "getAttribute (applyStylesToElement (Element tag as cs) (parseStyleDeclarations d)) ''style''
         = Some (join '';'' (map render_entry
             (spec_merged_entries (parseInlineStyle (existing_style (Element tag as cs)))
                (parseStyleDeclarations d))))"
proof -
  have "spread2 (parseInlineStyle (existing_style (Element tag as cs))) (parseStyleDeclarations d)
      = spec_merged_entries (parseInlineStyle (existing_style (Element tag as cs)))
          (parseStyleDeclarations d)"
    using distinct_parseInlineStyle distinct_parseStyleDeclarations assms
    by (rule spread2_plain)
  then show ?thesis
    by (simp add: applyStylesToElement_Element attr_get_attr_set style_string_def)
qed

text \<open>A merge without array-index names, evaluated through the theorem.\<close>

theorem merged_style_text_witness:
  "getAttribute (applyStylesToElement (Element ''rect'' [(''id'', ''r''), (''style'', ''fill:red; stroke : black'')] [])
       (parseStyleDeclarations ''opacity:1;fill:blue;x-y:2'')) ''style''
   = Some ''fill:blue;stroke:black;opacity:1;x-y:2''"
proof -
  have "list_all (\<lambda>k. \<not> is_array_index k)
          (map fst (parseInlineStyle (existing_style (Element ''rect'' [(''id'', ''r''), (''style'', ''fill:red; stroke : black'')] [])))
           @ map fst (parseStyleDeclarations ''opacity:1;fill:blue;x-y:2''))"
    by code_simp
  from merged_style_text [OF this] show ?thesis by code_simp
qed

text \<open>
  Claim C7: the pretty printer puts a newline at every \<open>><\<close> boundary and a newline plus
  two spaces between an opening tag and an opening tag that follows it directly. The code
  breaks every boundary in its first replacement, so the third pattern finds no two
  adjacent opening tags: on \<open><a><b></b></a>\<close> the nested opening tag is not indented.
\<close>

theorem formatXML_no_indent:
  "formatXML ''<a><b></b></a>'' = ''<a>\<newline><b>\<newline></b>\<newline></a>''"
  by code_simp




text \<open>
  Claim C2, as stated: after the extraction the tree has no style element, and the rule
  list has one entry per block found in the style elements, in source order. The second
  half fails for a style element that stands inside another one: the text content of the
  outer element holds the text of the inner one, and the inner element is in the list of
  style elements as well, so its block is listed twice. The document has the two blocks
  \<open>.a{x:1}\<close> and \<open>.b{y:2}\<close>; the conversion returns three rules.
\<close>

theorem extraction_complete_counterexample:
  "convertEmbeddedCSSToInline (table_env []) (nested_style_svg, []) nested_style_svg
     = Inr (Element ''svg'' [] [Element ''rect'' [] []],
            \<lparr>convertedStyles = 3, processedElements = 0,
             cssRules = [\<lparr>selector = ''.a'', styles = [(''x'', ''1'')]\<rparr>,
                         \<lparr>selector = ''.b'', styles = [(''y'', ''2'')]\<rparr>,
                         \<lparr>selector = ''.b'', styles = [(''y'', ''2'')]\<rparr>]\<rparr>)
   \<and> document_rules nested_style_svg
     = [\<lparr>selector = ''.a'', styles = [(''x'', ''1'')]\<rparr>,
        \<lparr>selector = ''.b'', styles = [(''y'', ''2'')]\<rparr>]"
  by code_simp

text \<open>
  Claim C2, amended: after the extraction the tree has no style element below its root.
  Every style text parses to the rules of its blocks, in the order of the text, the blocks
  with a blank selector or blank declarations left out; in particular a text of well-formed
  blocks followed by anything without a brace (white space at the end, say) parses to one
  rule per block. For a tree as the parser gives it, the rule list is the rules of the
  text of each style element below the root, the style elements taken in document order
  and one nested in another included, so that the rules of an earlier style element come
  before those of a later one; and the tree left by the extraction is the input tree
  without its style elements. A successful conversion returns this rule list, and its
  output tree has no style element.
\<close>

theorem extraction_complete:
  "style_elements (stripped env svg) = []
   \<and> parseCSS cssText = text_rules cssText
   \<and> (list_all wf_block blocks \<and> list_all not_brace rest \<longrightarrow>
        parseCSS (concat (map block_text blocks) @ rest) = map block_rule blocks)
   \<and> (clean svg \<longrightarrow>
        snd (extraction env svg)
          = concat (map (\<lambda>styleEl. text_rules (style_text env styleEl)) (style_nodes svg))
        \<and> stripped env svg = without_styles svg)
   \<and> (convertEmbeddedCSSToInline env ctx svg = Inr (out, res) \<longrightarrow>
        cssRules res = snd (extraction env svg) \<and> style_elements out = [])"
proof (intro conjI impI)
  show "style_elements (stripped env svg) = []" by (rule style_elements_stripped)
  show "parseCSS cssText = text_rules cssText" by (rule parseCSS_text_rules)
  show "parseCSS (concat (map block_text blocks) @ rest) = map block_rule blocks"
    if "list_all wf_block blocks \<and> list_all not_brace rest"
    using that by (simp add: parseCSS_blocks_tail)
  show "snd (extraction env svg)
          = concat (map (\<lambda>styleEl. text_rules (style_text env styleEl)) (style_nodes svg))"
    if "clean svg" using that by (rule extraction_text_rules)
  show "stripped env svg = without_styles svg" if "clean svg"
    using that by (rule stripped_without_styles)
  show "cssRules res = snd (extraction env svg)"
    if "convertEmbeddedCSSToInline env ctx svg = Inr (out, res)"
    using that by (rule convert_success)
  show "style_elements out = []"
    if "convertEmbeddedCSSToInline env ctx svg = Inr (out, res)"
    using that by (rule class_stripping_aux(3))
qed

text \<open>
  Two style elements, the first with line breaks between and after its blocks, the second
  below a group and with a block inside an at-rule.
\<close>

theorem extraction_complete_witness:
  "convertEmbeddedCSSToInline (table_env []) (two_styles_svg, []) two_styles_svg
     = Inr (two_styles_out, two_styles_result)
   \<and> parseCSS ''.a{x:1}\<newline>.b { y : 2 }\<newline>''
     = [\<lparr>selector = ''.a'', styles = [(''x'', ''1'')]\<rparr>,
        \<lparr>selector = ''.b'', styles = [(''y'', ''2'')]\<rparr>]
   \<and> parseCSS ''rect{z:3} @media{ .c{w:5} }''
     = [\<lparr>selector = ''rect'', styles = [(''z'', ''3'')]\<rparr>,
        \<lparr>selector = ''.c'', styles = [(''w'', ''5'')]\<rparr>]
   \<and> cssRules two_styles_result
     = concat (map (\<lambda>styleEl. text_rules (style_text (table_env []) styleEl))
         [Element ''style'' [] [Text ''.a{x:1}\<newline>.b { y : 2 }\<newline>''],
          Element ''style'' [] [Text ''rect{z:3} @media{ .c{w:5} }'']])
   \<and> stripped (table_env []) two_styles_svg
     = Element ''svg'' []
         [Element ''rect'' [(''class'', ''a'')] [],
          Element ''g'' [] [Element ''circle'' [(''class'', ''b'')] []]]
   \<and> style_elements two_styles_out = []"
proof -
  have h: "convertEmbeddedCSSToInline (table_env []) (two_styles_svg, []) two_styles_svg
     = Inr (two_styles_out, two_styles_result)"
    by code_simp
  have w: "list_all wf_block [(''.a'', ''x:1''), (''\<newline>.b '', '' y : 2 '')]
      \<and> list_all not_brace ''\<newline>''"
    by code_simp
  have c: "clean two_styles_svg" by code_simp
  note t = extraction_complete [where env = "table_env []" and svg = two_styles_svg
      and cssText = "''rect{z:3} @media{ .c{w:5} }''"
      and blocks = "[(''.a'', ''x:1''), (''\<newline>.b '', '' y : 2 '')]" and rest = "''\<newline>''"
      and ctx = "(two_styles_svg, [])" and out = two_styles_out and res = two_styles_result]
  note t3 = t [THEN conjunct2, THEN conjunct1]
  note t4 = t [THEN conjunct2, THEN conjunct2, THEN conjunct1, THEN mp, OF w]
  note t5 = t [THEN conjunct2, THEN conjunct2, THEN conjunct2, THEN conjunct1, THEN mp, OF c]
  note t6 = t [THEN conjunct2, THEN conjunct2, THEN conjunct2, THEN conjunct2, THEN mp, OF h]
  have b: "concat (map block_text [(''.a'', ''x:1''), (''\<newline>.b '', '' y : 2 '')]) @ ''\<newline>''
      = ''.a{x:1}\<newline>.b { y : 2 }\<newline>''"
    by code_simp
  have r: "map block_rule [(''.a'', ''x:1''), (''\<newline>.b '', '' y : 2 '')]
      = [\<lparr>selector = ''.a'', styles = [(''x'', ''1'')]\<rparr>,
         \<lparr>selector = ''.b'', styles = [(''y'', ''2'')]\<rparr>]"
    by code_simp
  have 1: "parseCSS ''.a{x:1}\<newline>.b { y : 2 }\<newline>''
     = [\<lparr>selector = ''.a'', styles = [(''x'', ''1'')]\<rparr>,
        \<lparr>selector = ''.b'', styles = [(''y'', ''2'')]\<rparr>]"
    using t4 unfolding b r .
  have tr: "text_rules ''rect{z:3} @media{ .c{w:5} }''
     = [\<lparr>selector = ''rect'', styles = [(''z'', ''3'')]\<rparr>,
        \<lparr>selector = ''.c'', styles = [(''w'', ''5'')]\<rparr>]"
    by code_simp
  have 2: "parseCSS ''rect{z:3} @media{ .c{w:5} }''
     = [\<lparr>selector = ''rect'', styles = [(''z'', ''3'')]\<rparr>,
        \<lparr>selector = ''.c'', styles = [(''w'', ''5'')]\<rparr>]"
    using t3 unfolding tr .
  have sn: "style_nodes two_styles_svg
      = [Element ''style'' [] [Text ''.a{x:1}\<newline>.b { y : 2 }\<newline>''],
         Element ''style'' [] [Text ''rect{z:3} @media{ .c{w:5} }'']]"
    by code_simp
  have 3: "cssRules two_styles_result
     = concat (map (\<lambda>styleEl. text_rules (style_text (table_env []) styleEl))
         [Element ''style'' [] [Text ''.a{x:1}\<newline>.b { y : 2 }\<newline>''],
          Element ''style'' [] [Text ''rect{z:3} @media{ .c{w:5} }'']])"
    using t6 [THEN conjunct1] t5 [THEN conjunct1] unfolding sn by (rule trans)
  have ws: "without_styles two_styles_svg
     = Element ''svg'' []
         [Element ''rect'' [(''class'', ''a'')] [],
          Element ''g'' [] [Element ''circle'' [(''class'', ''b'')] []]]"
    by code_simp
  have 4: "stripped (table_env []) two_styles_svg
     = Element ''svg'' []
         [Element ''rect'' [(''class'', ''a'')] [],
          Element ''g'' [] [Element ''circle'' [(''class'', ''b'')] []]]"
    using t5 [THEN conjunct2] unfolding ws .
  have 5: "style_elements two_styles_out = []" by (rule t6 [THEN conjunct2])
  show ?thesis by (intro conjI) (rule h 1 2 3 4 5)+
qed

text \<open>
  Claim C4: when the conversion returns, \<open>convertedStyles\<close> is the number of extracted
  rules, whatever they matched, and \<open>processedElements\<close> is the number of merges
  performed: the output tree is the tree left by the extraction after the operations of the
  structural pass and then of the class pass, carried out in order, each on an element
  below the root, and \<open>processedElements\<close> is the number of merges among them. A rule
  merged into an element by both passes is two merges.
\<close>

theorem counters:
  assumes "convertEmbeddedCSSToInline env ctx svg = Inr (out, res)"
  shows "convertedStyles res = length (cssRules res)
     \<and> cssRules res = snd (extraction env svg)
     \<and> out = perform (conversion_trace env ctx (cssRules res) (stripped env svg)) (stripped env svg)
     \<and> processedElements res
         = length (filter is_merge (conversion_trace env ctx (cssRules res) (stripped env svg)))
     \<and> list_all (\<lambda>x. op_path x \<in> set (descendant_paths (stripped env svg)))
          (conversion_trace env ctx (cssRules res) (stripped env svg))"
proof -
  from assms obtain svg2 n where c: "convertedStyles res = length (cssRules res)"
    and r: "cssRules res = snd (extraction env svg)"
    by (rule convert_success)
  show ?thesis
    by (intro conjI) (rule c r counters_trace [OF assms])+
qed

text \<open>
  Three rules and three elements. The rule \<open>rect\<close> is merged into both rectangles by the
  structural pass only; the rule \<open>.c\<close> is merged into the first rectangle by both passes;
  the rule \<open>.none\<close> matches nothing and is counted as converted.
\<close>

theorem counters_witness:
  "convertEmbeddedCSSToInline (table_env []) (counted_svg, []) counted_svg
     = Inr (counted_out, counted_result)
   \<and> conversion_trace (table_env []) (counted_svg, []) counted_rules
        (stripped (table_env []) counted_svg)
      = [Merge \<lparr>selector = ''rect'', styles = [(''fill'', ''red'')]\<rparr> [0],
         Merge \<lparr>selector = ''rect'', styles = [(''fill'', ''red'')]\<rparr> [2],
         Merge \<lparr>selector = ''.c'', styles = [(''stroke'', ''blue'')]\<rparr> [0],
         Merge \<lparr>selector = ''.c'', styles = [(''stroke'', ''blue'')]\<rparr> [0],
         RemoveClass [0]]
   \<and> convertedStyles counted_result = 3
   \<and> processedElements counted_result = 4
   \<and> counted_out
      = perform
          [Merge \<lparr>selector = ''rect'', styles = [(''fill'', ''red'')]\<rparr> [0],
           Merge \<lparr>selector = ''rect'', styles = [(''fill'', ''red'')]\<rparr> [2],
           Merge \<lparr>selector = ''.c'', styles = [(''stroke'', ''blue'')]\<rparr> [0],
           Merge \<lparr>selector = ''.c'', styles = [(''stroke'', ''blue'')]\<rparr> [0],
           RemoveClass [0]]
          (Element ''svg'' []
             [Element ''rect'' [(''class'', ''c'')] [],
              Element ''circle'' [] [],
              Element ''rect'' [] []])"
proof -
  have h: "convertEmbeddedCSSToInline (table_env []) (counted_svg, []) counted_svg
     = Inr (counted_out, counted_result)"
    by code_simp
  have rs: "cssRules counted_result = counted_rules" by (simp add: counted_result_def)
  have s: "stripped (table_env []) counted_svg
      = Element ''svg'' []
          [Element ''rect'' [(''class'', ''c'')] [],
           Element ''circle'' [] [],
           Element ''rect'' [] []]"
    by code_simp
  have t: "conversion_trace (table_env []) (counted_svg, []) counted_rules
        (stripped (table_env []) counted_svg)
      = [Merge \<lparr>selector = ''rect'', styles = [(''fill'', ''red'')]\<rparr> [0],
         Merge \<lparr>selector = ''rect'', styles = [(''fill'', ''red'')]\<rparr> [2],
         Merge \<lparr>selector = ''.c'', styles = [(''stroke'', ''blue'')]\<rparr> [0],
         Merge \<lparr>selector = ''.c'', styles = [(''stroke'', ''blue'')]\<rparr> [0],
         RemoveClass [0]]"
    by code_simp
  note c = counters [OF h]
  have "convertedStyles counted_result = length (cssRules counted_result)"
    by (rule c [THEN conjunct1])
  then have 1: "convertedStyles counted_result = 3" by (simp add: rs counted_rules_def)
  have "processedElements counted_result
      = length (filter is_merge (conversion_trace (table_env []) (counted_svg, [])
          (cssRules counted_result) (stripped (table_env []) counted_svg)))"
    by (rule c [THEN conjunct2, THEN conjunct2, THEN conjunct2, THEN conjunct1])
  then have 2: "processedElements counted_result = 4" unfolding rs t by simp
  have "counted_out
      = perform (conversion_trace (table_env []) (counted_svg, []) (cssRules counted_result)
          (stripped (table_env []) counted_svg)) (stripped (table_env []) counted_svg)"
    by (rule c [THEN conjunct2, THEN conjunct2, THEN conjunct1])
  then have 3: "counted_out
      = perform
          [Merge \<lparr>selector = ''rect'', styles = [(''fill'', ''red'')]\<rparr> [0],
           Merge \<lparr>selector = ''rect'', styles = [(''fill'', ''red'')]\<rparr> [2],
           Merge \<lparr>selector = ''.c'', styles = [(''stroke'', ''blue'')]\<rparr> [0],
           Merge \<lparr>selector = ''.c'', styles = [(''stroke'', ''blue'')]\<rparr> [0],
           RemoveClass [0]]
          (Element ''svg'' []
             [Element ''rect'' [(''class'', ''c'')] [],
              Element ''circle'' [] [],
              Element ''rect'' [] []])"
    unfolding rs t unfolding s .
  show ?thesis by (intro conjI) (rule h t 1 2 3)+
qed

text \<open>
  Claim C6, as stated: the conversion fails exactly when the text is not well-formed or
  has no root \<open>svg\<close> element, and malformed CSS never raises an error. It fails: a rule
  whose selector the engine refuses makes \<open>querySelectorAll\<close> raise, and the handler of
  \<open>convertSVG\<close> reports it like a parse error; and a well-formed document that holds an
  element named \<open>parsererror\<close> is reported as invalid.
\<close>

theorem conversion_failures_counterexample:
  "convertSVG (table_env [(''<svg><style>1{fill:red}</style></svg>'', bad_selector_svg)])
       ''<svg><style>1{fill:red}</style></svg>''
     = Failed (SelectorSyntaxError ''1'')
   \<and> convertSVG (table_env [(''<svg><parsererror/></svg>'', nested_error_svg)])
       ''<svg><parsererror/></svg>''
     = Failed InvalidSVGFormat"
  by code_simp

text \<open>
  Claim C6, amended: the conversion of a text that is not blank fails in exactly three
  cases, and then leaves no output: the parsed document holds a \<open>parsererror\<close> element
  (invalid format); it holds none and no \<open>svg\<close> element (no SVG element found); or the
  first extracted rule with a selector that the engine refuses raises the engine's syntax
  error. Nothing else fails: malformed declarations, rules that match nothing and elements
  without inline style raise no error.
\<close>

theorem conversion_failures:
  "convertSVG env input = Failed err \<longleftrightarrow>
     trim input \<noteq> [] \<and>
     (case first_element (parseFromString env (trim input)) ''parsererror'' of
        Some e \<Rightarrow> err = InvalidSVGFormat
      | None \<Rightarrow>
          (case first_element (parseFromString env (trim input)) ''svg'' of
             None \<Rightarrow> err = NoSVGElement
           | Some p \<Rightarrow>
               (case subtree_at (parseFromString env (trim input)) p of
                  None \<Rightarrow> err = NoSVGElement
                | Some svg \<Rightarrow>
                    (case refused_rule env (snd (extraction env svg)) of
                       Some rule \<Rightarrow> err = SelectorSyntaxError (selector rule)
                     | None \<Rightarrow> False))))"
  by (rule conversion_failures_aux)

text \<open>
  A document without an \<open>svg\<close> element.
\<close>

theorem conversion_failures_witness:
  "convertSVG (table_env [(''<g/>'', Element ''g'' [] [])]) '' <g/> '' = Failed NoSVGElement"
proof -
  have "trim '' <g/> '' \<noteq> [] \<and>
     (case first_element (parseFromString (table_env [(''<g/>'', Element ''g'' [] [])]) (trim '' <g/> '')) ''parsererror'' of
        Some e \<Rightarrow> NoSVGElement = InvalidSVGFormat
      | None \<Rightarrow>
          (case first_element (parseFromString (table_env [(''<g/>'', Element ''g'' [] [])]) (trim '' <g/> '')) ''svg'' of
             None \<Rightarrow> NoSVGElement = NoSVGElement
           | Some p \<Rightarrow>
               (case subtree_at (parseFromString (table_env [(''<g/>'', Element ''g'' [] [])]) (trim '' <g/> '')) p of
                  None \<Rightarrow> NoSVGElement = NoSVGElement
                | Some svg \<Rightarrow>
                    (case refused_rule (table_env [(''<g/>'', Element ''g'' [] [])]) (snd (extraction (table_env [(''<g/>'', Element ''g'' [] [])]) svg)) of
                       Some rule \<Rightarrow> NoSVGElement = SelectorSyntaxError (selector rule)
                     | None \<Rightarrow> False))))"
    by code_simp
  then show ?thesis by (rule iffD2 [OF conversion_failures])
qed

text \<open>
  Claim C10: for an input that is empty or consists of white space only, and for no
  other, \<open>convertSVG\<close> returns early: no error, no converted markup, no statistics.
\<close>

theorem blank_input:
  "convertSVG env input = Ready \<longleftrightarrow> list_all is_js_space input"
  by (rule blank_aux)

text \<open>
  A blank, a line feed and a tab.
\<close>

theorem blank_input_witness:
  "convertSVG (table_env []) [CHR '' '', CHR 0x0A, CHR 0x09] = Ready"
proof -
  have "list_all is_js_space [CHR '' '', CHR 0x0A, CHR 0x09]" by code_simp
  then show ?thesis by (rule iffD2 [OF blank_input])
qed

end
